theory Spec2Isabelle
  imports Main "HOL-Library.Char_ord" "HOL-Library.List_Lexorder" "HOL-Library.Multiset"
begin

section \<open>Strings, errors and interpreter primitives\<close>

text \<open>
  The module \<^verbatim>\<open>pyglottolog/monsterlib/_bibtex_escaping.py\<close> is Python 2 code working on
  \<^verbatim>\<open>unicode\<close> objects. A \<^verbatim>\<open>unicode\<close> string is modelled as the list of its code points
  (\<^verbatim>\<open>ord(c)\<close> of each character, a natural number); a byte string as the list of its
  byte values. The interpreter is taken to be a wide build (\<^verbatim>\<open>sys.maxunicode == 0x10FFFF\<close>),
  so that one character is one code point.
\<close>

type_synonym ustring = "nat list"

definition ustr :: "string \<Rightarrow> ustring" where
  "ustr s = map of_char s"

text \<open>The exceptions the module can raise, as values.\<close>

datatype error = ValueError | OverflowError | UnicodeDecodeError | KeyError

text \<open>
  \<^verbatim>\<open>unichr(i)\<close>: the character with code point \<^verbatim>\<open>i\<close>; \<^verbatim>\<open>ValueError\<close> outside
  \<^verbatim>\<open>range(0x110000)\<close>, \<^verbatim>\<open>OverflowError\<close> when \<^verbatim>\<open>i\<close> does not fit a C int.
\<close>

definition unichr :: "nat \<Rightarrow> error + nat" where
  "unichr i = (if i < 0x110000 then Inr i
               else if i < 2 ^ 31 then Inl ValueError else Inl OverflowError)"

text \<open>The regular-expression class \<^verbatim>\<open>[0-9]\<close>, which is also \<^verbatim>\<open>\d\<close> of a Python 2
  pattern compiled without the UNICODE flag.\<close>

definition is_digit :: "nat \<Rightarrow> bool" where
  "is_digit c \<longleftrightarrow> 48 \<le> c \<and> c \<le> 57"

text \<open>\<^verbatim>\<open>'%d' % o\<close> for a non-negative \<^verbatim>\<open>o\<close>: the decimal digits, most significant first.\<close>

fun dec_str :: "nat \<Rightarrow> ustring" where
  "dec_str n = (if n < 10 then [48 + n] else dec_str (n div 10) @ [48 + n mod 10])"

declare dec_str.simps [simp del]

text \<open>\<^verbatim>\<open>int(ds)\<close> for a string \<^verbatim>\<open>ds\<close> of decimal digits.\<close>

definition int_of_dec :: "ustring \<Rightarrow> nat" where
  "int_of_dec ds = foldl (\<lambda>a c. 10 * a + (c - 48)) 0 ds"

text \<open>A literal prefix of a pattern: the rest of the string behind the prefix, if it is there.\<close>

fun strip_prefix :: "'a list \<Rightarrow> 'a list \<Rightarrow> 'a list option" where
  "strip_prefix [] s = Some s"
| "strip_prefix (p # ps) [] = None"
| "strip_prefix (p # ps) (c # cs) = (if p = c then strip_prefix ps cs else None)"

section \<open>The legacy ASCII-escape codec\<close>

text \<open>
  \<^verbatim>\<open>
  def u_escape(s):
      def iterchunks(s):
          for c in s:
              o = ord(c)
              if o <= 127:
                  yield c
              else:
                  yield r'?[\u%d]' % o
      return ''.join(iterchunks(s))
  \<close>
\<close>

definition escape_chunk :: "nat \<Rightarrow> ustring" where
  "escape_chunk o' = (if o' \<le> 127 then [o'] else [63, 91, 92, 117] @ dec_str o' @ [93])"

definition u_escape :: "ustring \<Rightarrow> ustring" where
  "u_escape s = concat (map escape_chunk s)"

text \<open>
  \<^verbatim>\<open>
  def u_unescape(s, pattern=re.compile(r'\?\[\\u(\d{3,5})\]')):
      def iterchunks(s, matches):
          pos = 0
          for m in matches:
              start, end = m.span()
              yield s[pos:start]
              yield unichr(int(m.group(1)))
              pos = end
          yield s[pos:]
      return ''.join(iterchunks(s, pattern.finditer(s)))
  \<close>
  \<open>pattern_match s\<close> is the match of the pattern at the very start of \<open>s\<close>: group 1 and
  the length of the match. After the literal \<^verbatim>\<open>?[\u\<close> the greedy \<^verbatim>\<open>\d{3,5}\<close> takes up to
  five digits and gives them back one by one; since \<^verbatim>\<open>]\<close> is no digit, the pattern matches
  exactly when the whole run of digits has three to five digits and \<^verbatim>\<open>]\<close> follows it.
\<close>

definition pattern_match :: "ustring \<Rightarrow> (ustring \<times> nat) option" where
  "pattern_match s =
     (case strip_prefix [63, 91, 92, 117] s of
        None \<Rightarrow> None
      | Some r \<Rightarrow>
          (let ds = takeWhile is_digit r; k = length ds
           in if 3 \<le> k \<and> k \<le> 5 \<and> take 1 (drop k r) = [93]
              then Some (ds, 4 + k + 1) else None))"

lemma pattern_match_pos: "pattern_match s = Some (g, n) \<Longrightarrow> 0 < n"
  by (auto simp: pattern_match_def Let_def split: option.splits if_splits)

text \<open>\<^verbatim>\<open>pattern.finditer(s)\<close>: the non-overlapping matches from left to right, each as
  (start, end, group 1). The first argument is the position of the rest of the string.\<close>

function finditer :: "nat \<Rightarrow> ustring \<Rightarrow> (nat \<times> nat \<times> ustring) list" where
  "finditer pos [] = []"
| "finditer pos (c # cs) =
     (case pattern_match (c # cs) of
        Some (g, n) \<Rightarrow> (pos, pos + n, g) # finditer (pos + n) (drop n (c # cs))
      | None \<Rightarrow> finditer (pos + 1) cs)"
  by pat_completeness auto
termination
  by (relation "measure (\<lambda>(pos, s). length s)") (auto dest: pattern_match_pos)

text \<open>The slice \<^verbatim>\<open>s[i:j]\<close> for indices that are not negative.\<close>

definition slice :: "'a list \<Rightarrow> nat \<Rightarrow> nat \<Rightarrow> 'a list" where
  "slice s i j = take (j - i) (drop i s)"

fun iterchunks :: "ustring \<Rightarrow> nat \<Rightarrow> (nat \<times> nat \<times> ustring) list \<Rightarrow> error + ustring list" where
  "iterchunks s pos [] = Inr [drop pos s]"
| "iterchunks s pos ((start, end', g) # ms) =
     (case unichr (int_of_dec g) of
        Inl e \<Rightarrow> Inl e
      | Inr c \<Rightarrow>
          (case iterchunks s end' ms of
             Inl e \<Rightarrow> Inl e
           | Inr chunks \<Rightarrow> Inr (slice s pos start # [c] # chunks)))"

definition u_unescape :: "ustring \<Rightarrow> error + ustring" where
  "u_unescape s =
     (case iterchunks s 0 (finditer 0 s) of
        Inl e \<Rightarrow> Inl e
      | Inr chunks \<Rightarrow> Inr (concat chunks))"

section \<open>Regular-expression substitution\<close>

text \<open>
  \<^verbatim>\<open>pattern.sub(repl, s)\<close> scans \<open>s\<close> from left to right; where the pattern matches it
  writes the replacement and goes on behind the match, elsewhere it copies one character.
  A pattern is given by its match at the start of a string: what the replacement function
  returns for it, and the length of the match. No pattern of this module matches the empty
  string.
\<close>

function re_sub :: "(ustring \<Rightarrow> (ustring \<times> nat) option) \<Rightarrow> ustring \<Rightarrow> ustring" where
  "re_sub m [] = []"
| "re_sub m (c # cs) =
     (case m (c # cs) of
        None \<Rightarrow> c # re_sub m cs
      | Some (rep, n) \<Rightarrow>
          if 0 < n then rep @ re_sub m (drop n (c # cs)) else c # re_sub m cs)"
  by pat_completeness auto
termination
  by (relation "measure (\<lambda>(m, s). length s)") auto

text \<open>The same with a replacement function that can raise.\<close>

function re_sub_err ::
  "(ustring \<Rightarrow> ((error + ustring) \<times> nat) option) \<Rightarrow> ustring \<Rightarrow> error + ustring" where
  "re_sub_err m [] = Inr []"
| "re_sub_err m (c # cs) =
     (case m (c # cs) of
        None \<Rightarrow> (case re_sub_err m cs of Inl e \<Rightarrow> Inl e | Inr t \<Rightarrow> Inr (c # t))
      | Some (rep, n) \<Rightarrow>
          if 0 < n then
            (case rep of
               Inl e \<Rightarrow> Inl e
             | Inr r \<Rightarrow>
                 (case re_sub_err m (drop n (c # cs)) of Inl e \<Rightarrow> Inl e | Inr t \<Rightarrow> Inr (r @ t)))
          else (case re_sub_err m cs of Inl e \<Rightarrow> Inl e | Inr t \<Rightarrow> Inr (c # t)))"
  by pat_completeness auto
termination
  by (relation "measure (\<lambda>(m, s). length s)") auto

text \<open>\<^verbatim>\<open>s.replace(old, new)\<close> for a non-empty \<^verbatim>\<open>old\<close>.\<close>

definition str_replace :: "ustring \<Rightarrow> ustring \<Rightarrow> ustring \<Rightarrow> ustring" where
  "str_replace old new s =
     re_sub (\<lambda>t. case strip_prefix old t of None \<Rightarrow> None | Some _ \<Rightarrow> Some (new, length old)) s"

text \<open>\<^verbatim>\<open>\s\<close> of a Python 2 pattern compiled without the UNICODE flag: \<^verbatim>\<open>[ \t\n\r\f\v]\<close>.\<close>

definition is_space :: "nat \<Rightarrow> bool" where
  "is_space c \<longleftrightarrow> c = 32 \<or> c = 9 \<or> c = 10 \<or> c = 13 \<or> c = 12 \<or> c = 11"

section \<open>The decode pipeline\<close>

text \<open>
  \<^verbatim>\<open>
  numcharref_patterns = [
      re.compile('\\\\?&#(?P<dec>[0-9]+);'),
      re.compile('\?\[\\\\u\s*(?P<dec>[0-9]+)\]')]
  def numcharref_repl(m):
      return unichr(int(m.group('dec')))
  \<close>
  Both patterns end in a greedy run of digits and a closing character that is no digit:
  they match exactly when the whole run of digits is not empty and the closing character
  follows it.
\<close>

definition digits_then :: "nat \<Rightarrow> ustring \<Rightarrow> (ustring \<times> nat) option" where
  "digits_then close r =
     (let ds = takeWhile is_digit r; k = length ds
      in if 1 \<le> k \<and> take 1 (drop k r) = [close] then Some (ds, k + 1) else None)"

definition numcharref_repl :: "ustring \<Rightarrow> error + ustring" where
  "numcharref_repl dec = (case unichr (int_of_dec dec) of Inl e \<Rightarrow> Inl e | Inr c \<Rightarrow> Inr [c])"

text \<open>\<^verbatim>\<open>&#(?P<dec>[0-9]+);\<close>, the first pattern behind its optional backslash.\<close>

definition amp_hash_match :: "ustring \<Rightarrow> (ustring \<times> nat) option" where
  "amp_hash_match s =
     (case strip_prefix [38, 35] s of
        None \<Rightarrow> None
      | Some r \<Rightarrow> (case digits_then 59 r of None \<Rightarrow> None | Some (ds, n) \<Rightarrow> Some (ds, 2 + n)))"

text \<open>The first pattern: the greedy \<^verbatim>\<open>\\?\<close> takes a backslash if there is one, and the
  match is tried without it when that fails.\<close>

definition numcharref_match1 :: "ustring \<Rightarrow> ((error + ustring) \<times> nat) option" where
  "numcharref_match1 s =
     (case (case strip_prefix [92] s of
              None \<Rightarrow> amp_hash_match s
            | Some r \<Rightarrow>
                (case amp_hash_match r of
                   None \<Rightarrow> amp_hash_match s
                 | Some (ds, n) \<Rightarrow> Some (ds, 1 + n))) of
        None \<Rightarrow> None
      | Some (ds, n) \<Rightarrow> Some (numcharref_repl ds, n))"

text \<open>The second pattern, \<^verbatim>\<open>\?\[\\u\s*(?P<dec>[0-9]+)\]\<close>.\<close>

definition numcharref_match2 :: "ustring \<Rightarrow> ((error + ustring) \<times> nat) option" where
  "numcharref_match2 s =
     (case strip_prefix [63, 91, 92, 117] s of
        None \<Rightarrow> None
      | Some r \<Rightarrow>
          (let ws = takeWhile is_space r
           in case digits_then 93 (drop (length ws) r) of
                None \<Rightarrow> None
              | Some (ds, n) \<Rightarrow> Some (numcharref_repl ds, 4 + length ws + n)))"

text \<open>
  \<^verbatim>\<open>
  command_patterns = [
      re.compile('\\\\%s \{(?P<arg>[^\}]+)\}' % name)
      for name in ['url', 'emph', 'textit', 'texttt']]
  \<close>
  A backslash, the name, one space, an opening brace, a greedy non-empty run of characters
  other than the closing brace, and the closing brace. The replacement is the argument.
\<close>

definition braced :: "ustring \<Rightarrow> (ustring \<times> nat) option" where
  "braced r =
     (let arg = takeWhile (\<lambda>c. c \<noteq> 125) r; k = length arg
      in if 1 \<le> k \<and> take 1 (drop k r) = [125] then Some (arg, k + 1) else None)"

definition command_names :: "ustring list" where
  "command_names = map ustr [''url'', ''emph'', ''textit'', ''texttt'']"

definition command_match :: "ustring \<Rightarrow> ustring \<Rightarrow> (ustring \<times> nat) option" where
  "command_match name s =
     (case strip_prefix ([92] @ name @ [32, 123]) s of
        None \<Rightarrow> None
      | Some r \<Rightarrow>
          (case braced r of None \<Rightarrow> None | Some (arg, n) \<Rightarrow> Some (arg, length name + 3 + n)))"

text \<open>The default argument \<^verbatim>\<open>debracket=re.compile(u"\{([^\}]+)\}")\<close>, replaced by its group 1.\<close>

definition debracket_match :: "ustring \<Rightarrow> (ustring \<times> nat) option" where
  "debracket_match s =
     (case strip_prefix [123] s of
        None \<Rightarrow> None
      | Some r \<Rightarrow> (case braced r of None \<Rightarrow> None | Some (arg, n) \<Rightarrow> Some (arg, 1 + n)))"

text \<open>
  \<^verbatim>\<open>
  def is_combining(c):
      try:
          return unicodedata.name(c).startswith('COMBINING')
      except ValueError:
          return False
  \<close>
  \<^verbatim>\<open>unicodedata.name\<close> belongs to the interpreter and is a parameter of the model: the
  name of a code point, or \<open>None\<close> where it raises \<^verbatim>\<open>ValueError\<close> (no name).
\<close>

definition startswith :: "'a list \<Rightarrow> 'a list \<Rightarrow> bool" where
  "startswith s p \<longleftrightarrow> take (length p) s = p"

definition is_combining :: "(nat \<Rightarrow> string option) \<Rightarrow> nat \<Rightarrow> bool" where
  "is_combining name c = (case name c of None \<Rightarrow> False | Some n \<Rightarrow> startswith n ''COMBINING'')"

text \<open>
  \<^verbatim>\<open>
  language_tags = {'latin': 'lat', 'zh': 'zho', ...}
  language_tag_pattern = re.compile(
      u"\\\\(?P<tag>%s)\s+" % '|'.join(list(language_tags.keys())))
  def recode_language_tags(s):
      def repl(m):
          return '[%s] ' % language_tags[m.group('tag')]
      return language_tag_pattern.sub(repl, s)
  \<close>
  The dictionary is kept as the list of its items in the order of the source text.
\<close>

definition language_tags :: "(ustring \<times> ustring) list" where
  "language_tags = map (\<lambda>(k, v). (ustr k, ustr v))
     [(''latin'', ''lat''), (''zh'', ''zho''), (''hindi'', ''hin''), (''eng'', ''eng''),
      (''viet'', ''vie''), (''tib'', ''bod''), (''skt'', ''san''), (''gujarati'', ''guj''),
      (''pacoh'', ''pac''), (''thai'', ''tha''), (''dutch'', ''nld''), (''burm'', ''mya''),
      (''dan'', ''dan''), (''norw'', ''nor''), (''oldkhmer'', ''qok''), (''ital'', ''ita''),
      (''santali'', ''sat''), (''span'', ''spa''), (''germ'', ''deu''), (''fr'', ''fra''),
      (''rus'', ''rus'')]"

text \<open>The alternation of the tags followed by \<^verbatim>\<open>\s+\<close>: the first alternative behind which
  there is whitespace; the greedy \<^verbatim>\<open>\s+\<close> takes the whole run. The result is the tag
  and the length of tag and whitespace.\<close>

fun tag_match :: "ustring list \<Rightarrow> ustring \<Rightarrow> (ustring \<times> nat) option" where
  "tag_match [] r = None"
| "tag_match (tag # tags) r =
     (case strip_prefix tag r of
        None \<Rightarrow> tag_match tags r
      | Some r' \<Rightarrow>
          (let ws = takeWhile is_space r'
           in if ws \<noteq> [] then Some (tag, length tag + length ws) else tag_match tags r))"

definition language_tag_repl :: "ustring \<Rightarrow> error + ustring" where
  "language_tag_repl tag =
     (case map_of language_tags tag of
        None \<Rightarrow> Inl KeyError
      | Some code \<Rightarrow> Inr ([91] @ code @ [93, 32]))"

definition language_tag_match :: "ustring \<Rightarrow> ((error + ustring) \<times> nat) option" where
  "language_tag_match s =
     (case strip_prefix [92] s of
        None \<Rightarrow> None
      | Some r \<Rightarrow>
          (case tag_match (map fst language_tags) r of
             None \<Rightarrow> None
           | Some (tag, n) \<Rightarrow> Some (language_tag_repl tag, 1 + n)))"

definition recode_language_tags :: "ustring \<Rightarrow> error + ustring" where
  "recode_language_tags s = re_sub_err language_tag_match s"

text \<open>
  The inner loop \<^verbatim>\<open>while comb: n.append(comb.pop())\<close>: \<^verbatim>\<open>pop()\<close> takes the last
  element of the buffer.
\<close>

function drain :: "ustring \<Rightarrow> ustring \<Rightarrow> ustring \<times> ustring" where
  "drain n comb = (if comb = [] then (n, comb) else drain (n @ [last comb]) (butlast comb))"
  by pat_completeness auto
termination
  by (relation "measure (\<lambda>(n, comb). length comb)") auto

declare drain.simps [simp del]

text \<open>
  \<^verbatim>\<open>
      n = []
      comb = []
      for c in s:
          if is_combining(c):
              comb.append(c)
          else:
              n.append(c)
              while comb:
                  n.append(comb.pop())
      s = u''.join(n)
  \<close>
  The state of the loop is the pair of the lists \<^verbatim>\<open>n\<close> and \<^verbatim>\<open>comb\<close>.
\<close>

definition reorder_step ::
  "(nat \<Rightarrow> string option) \<Rightarrow> ustring \<times> ustring \<Rightarrow> nat \<Rightarrow> ustring \<times> ustring" where
  "reorder_step name st c =
     (case st of (n, comb) \<Rightarrow>
        if is_combining name c then (n, comb @ [c]) else drain (n @ [c]) comb)"

definition reorder_combining :: "(nat \<Rightarrow> string option) \<Rightarrow> ustring \<Rightarrow> ustring" where
  "reorder_combining name s = fst (foldl (reorder_step name) ([], []) s)"

text \<open>The other steps of \<^verbatim>\<open>ulatex_postprocess\<close>, each under a name.
  \<^verbatim>\<open>
      for p in command_patterns:
          s = p.sub(lambda m: m.group('arg'), s)
  \<close>\<close>

definition unwrap_commands :: "ustring \<Rightarrow> ustring" where
  "unwrap_commands s = foldl (\<lambda>s name. re_sub (command_match name) s) s command_names"

text \<open>\<^verbatim>\<open>s = debracket.sub(u"\\1", debracket.sub(u"\\1", s.replace('{}', '')))\<close>\<close>

definition remove_braces :: "ustring \<Rightarrow> ustring" where
  "remove_braces s =
     re_sub debracket_match (re_sub debracket_match (str_replace [123, 125] [] s))"

text \<open>
  \<^verbatim>\<open>
      for p in numcharref_patterns:
          s = p.sub(numcharref_repl, s)
  \<close>\<close>

definition resolve_numcharrefs :: "ustring \<Rightarrow> error + ustring" where
  "resolve_numcharrefs s =
     (case re_sub_err numcharref_match1 s of
        Inl e \<Rightarrow> Inl e
      | Inr s' \<Rightarrow> re_sub_err numcharref_match2 s')"

text \<open>
  \<^verbatim>\<open>
      for cmd in ['relax', 'it', 'em', 'textsc', 'cite', 'citet']:
          s = s.replace('\\' + cmd + ' ', '')
  \<close>\<close>

definition stripped_commands :: "ustring list" where
  "stripped_commands = map ustr [''relax'', ''it'', ''em'', ''textsc'', ''cite'', ''citet'']"

definition strip_commands :: "ustring \<Rightarrow> ustring" where
  "strip_commands s = foldl (\<lambda>s cmd. str_replace ([92] @ cmd @ [32]) [] s) s stripped_commands"

text \<open>A Python 2 string: a byte string (\<^verbatim>\<open>str\<close>) or a text (\<^verbatim>\<open>unicode\<close>, \<^verbatim>\<open>text_type\<close>
  of \<^verbatim>\<open>six\<close>).\<close>

datatype pystr = Bytes "nat list" | Unicode ustring

text \<open>\<^verbatim>\<open>s.decode('ascii')\<close> of a byte string.\<close>

definition decode_ascii :: "nat list \<Rightarrow> error + ustring" where
  "decode_ascii bs = (if list_all (\<lambda>b. b < 128) bs then Inr bs else Inl UnicodeDecodeError)"

text \<open>
  \<^verbatim>\<open>
  def ulatex_postprocess(s, debracket=re.compile(u"\{([^\}]+)\}")):
      if not isinstance(s, text_type):
          s = s.decode('ascii')
      for p in command_patterns: ...
      s = debracket.sub(...)
      (the loop over the characters)
      for p in numcharref_patterns: ...
      for cmd in [...]: ...
      s = recode_language_tags(s)
      return unicodedata.normalize('NFC', s)
  \<close>
  \<^verbatim>\<open>unicodedata.normalize('NFC', _)\<close> belongs to the interpreter and is the parameter
  \<open>nfc\<close> of the model.
\<close>

definition ulatex_postprocess ::
  "(nat \<Rightarrow> string option) \<Rightarrow> (ustring \<Rightarrow> ustring) \<Rightarrow> pystr \<Rightarrow> error + ustring" where
  "ulatex_postprocess name nfc s =
     (case (case s of Unicode u \<Rightarrow> Inr u | Bytes bs \<Rightarrow> decode_ascii bs) of
        Inl e \<Rightarrow> Inl e
      | Inr s0 \<Rightarrow>
          (case resolve_numcharrefs
                  (reorder_combining name (remove_braces (unwrap_commands s0))) of
             Inl e \<Rightarrow> Inl e
           | Inr s1 \<Rightarrow>
               (case recode_language_tags (strip_commands s1) of
                  Inl e \<Rightarrow> Inl e
                | Inr s2 \<Rightarrow> Inr (nfc s2))))"

text \<open>
  \<^verbatim>\<open>
  def ulatex_preprocess(s):
      s = unicodedata.normalize('NFC', s.decode('utf8'))
      for c in s:
          if is_combining(c):
              print s
              raise ValueError
      return s
  \<close>
  The UTF-8 codec of the interpreter is the parameter \<open>utf8\<close>; what is printed is left out.
\<close>

fun check_combining :: "(nat \<Rightarrow> string option) \<Rightarrow> ustring \<Rightarrow> error + unit" where
  "check_combining name [] = Inr ()"
| "check_combining name (c # cs) =
     (if is_combining name c then Inl ValueError else check_combining name cs)"

definition ulatex_preprocess ::
  "(nat list \<Rightarrow> error + ustring) \<Rightarrow> (ustring \<Rightarrow> ustring) \<Rightarrow> (nat \<Rightarrow> string option)
     \<Rightarrow> nat list \<Rightarrow> error + ustring" where
  "ulatex_preprocess utf8 nfc name s =
     (case utf8 s of
        Inl e \<Rightarrow> Inl e
      | Inr u \<Rightarrow>
          (let s' = nfc u
           in case check_combining name s' of Inl e \<Rightarrow> Inl e | Inr _ \<Rightarrow> Inr s'))"

text \<open>
  \<^verbatim>\<open>
  def ulatex_decode(s):
      return ulatex_postprocess(ulatex_preprocess(s).decode('ulatex'))
  \<close>
  The codec \<^verbatim>\<open>ulatex\<close> is the one of the library \<^verbatim>\<open>latexcodec\<close>, with the table
  extended by this module; it is the parameter \<open>ulatex\<close> of the model.
\<close>

definition ulatex_decode ::
  "(nat list \<Rightarrow> error + ustring) \<Rightarrow> (ustring \<Rightarrow> ustring) \<Rightarrow> (nat \<Rightarrow> string option)
     \<Rightarrow> (ustring \<Rightarrow> error + ustring) \<Rightarrow> nat list \<Rightarrow> error + ustring" where
  "ulatex_decode utf8 nfc name ulatex s =
     (case ulatex_preprocess utf8 nfc name s of
        Inl e \<Rightarrow> Inl e
      | Inr s' \<Rightarrow>
          (case ulatex s' of
             Inl e \<Rightarrow> Inl e
           | Inr t \<Rightarrow> ulatex_postprocess name nfc (Unicode t)))"

section \<open>Construction of the symbol table\<close>

text \<open>
  \<^verbatim>\<open>
  LATEX_TABLE = {
      u'COMBINING DOT BELOW': br'\textsubdot',
      u'COMBINING MACRON': [br'\=', br'\textbar'],
      ...}
  _LC_TABLES = (
      latexcodec.codec._LATEX_UNICODE_TABLE, latexcodec.codec._ULATEX_UNICODE_TABLE)
  for unicode_text, latex_text in sorted(
          list(LATEX_TABLE.items()), key=lambda t: t[0], reverse=True):
      if not isinstance(latex_text, (list, tuple)):
          latex_text = [latex_text]
      uchar = unicodedata.lookup(unicode_text)
      for table in _LC_TABLES:
          for lt in latex_text:
              table.register(uchar, lt)
  \<close>
  A value of the dictionary is one LaTeX spelling or a list of them; the dictionary is the
  list of its items (the keys are distinct), in whatever order \<^verbatim>\<open>items()\<close> gives them.
\<close>

datatype spellings = Single "nat list" | Several "nat list list"

definition as_list :: "spellings \<Rightarrow> nat list list" where
  "as_list latex_text = (case latex_text of Single lt \<Rightarrow> [lt] | Several lts \<Rightarrow> lts)"

text \<open>
  \<^verbatim>\<open>sorted(xs, key=key, reverse=True)\<close>: the sort is stable, and with \<^verbatim>\<open>reverse=True\<close>
  elements of equal key keep their order too (the list is reversed, sorted, and reversed
  again). Python compares the names, \<^verbatim>\<open>unicode\<close> strings, character by character by
  code point, which is the order of \<open>string\<close> here.
\<close>

definition sorted_reverse :: "('a \<Rightarrow> 'k::linorder) \<Rightarrow> 'a list \<Rightarrow> 'a list" where
  "sorted_reverse key xs = rev (sort_key key (rev xs))"

text \<open>
  Modelled from the spec: the method \<^verbatim>\<open>register\<close> of the tables of the library
  \<^verbatim>\<open>latexcodec\<close>, which is not part of the sources. Of a table only the inverse mapping,
  from a LaTeX spelling to the code point it decodes to, is kept; following the data model
  of the specification it is last-write-wins: a later registration for the same spelling
  shadows an earlier one.
\<close>

type_synonym inverse_table = "nat list \<rightharpoonup> nat"

definition register :: "nat \<Rightarrow> nat list \<Rightarrow> inverse_table \<Rightarrow> inverse_table" where
  "register uchar lt table = table(lt \<mapsto> uchar)"

text \<open>
  The loop. \<^verbatim>\<open>unicodedata.lookup\<close> is a parameter: the code point of a name, or \<open>None\<close>
  where it raises \<^verbatim>\<open>KeyError\<close>, which ends the loop.
\<close>

fun register_entries ::
  "(string \<Rightarrow> nat option) \<Rightarrow> (string \<times> spellings) list \<Rightarrow> inverse_table list
     \<Rightarrow> error + inverse_table list" where
  "register_entries lookup [] tables = Inr tables"
| "register_entries lookup ((unicode_text, latex_text) # entries) tables =
     (case lookup unicode_text of
        None \<Rightarrow> Inl KeyError
      | Some uchar \<Rightarrow>
          register_entries lookup entries
            (map (\<lambda>table. fold (register uchar) (as_list latex_text) table) tables))"

definition build_tables ::
  "(string \<Rightarrow> nat option) \<Rightarrow> (string \<times> spellings) list \<Rightarrow> inverse_table list
     \<Rightarrow> error + inverse_table list" where
  "build_tables lookup LATEX_TABLE tables =
     register_entries lookup (sorted_reverse fst LATEX_TABLE) tables"

section \<open>Notions used in the statements\<close>

text \<open>
  Every pattern of \<open>ulatex_postprocess\<close> starts with a backslash, an opening brace, an
  ampersand or a question mark. A character is plain when it is none of these.
\<close>

definition plain :: "nat \<Rightarrow> bool" where
  "plain c \<longleftrightarrow> c \<noteq> 92 \<and> c \<noteq> 123 \<and> c \<noteq> 38 \<and> c \<noteq> 63"

text \<open>A text without marks, as \<open>is_combining\<close> sees them.\<close>

definition no_marks :: "(nat \<Rightarrow> string option) \<Rightarrow> ustring \<Rightarrow> bool" where
  "no_marks name s = list_all (\<lambda>c. \<not> is_combining name c) s"

text \<open>
  The steps of \<open>ulatex_postprocess\<close> in the order in which section 4.2 of the specification
  lists them (stages 4 to 9): command stripping, with the commands that take an argument
  in braces; brace removal; reordering of the combining marks; numeric character
  references; language tags; normalisation. It is compared with the function of the
  source below.
\<close>

definition postprocess_in_spec_order ::
  "(nat \<Rightarrow> string option) \<Rightarrow> (ustring \<Rightarrow> ustring) \<Rightarrow> ustring \<Rightarrow> error + ustring" where
  "postprocess_in_spec_order name nfc s =
     (case resolve_numcharrefs
             (reorder_combining name (remove_braces (unwrap_commands (strip_commands s)))) of
        Inl e \<Rightarrow> Inl e
      | Inr s1 \<Rightarrow>
          (case recode_language_tags s1 of
             Inl e \<Rightarrow> Inl e
           | Inr s2 \<Rightarrow> Inr (nfc s2)))"

text \<open>
  The slot of the spelling \<open>l\<close> in an inverse table after a list of entries has been
  registered, \<open>d\<close> being the slot before: what \<open>register_entries\<close> leaves there when
  every name is found.
\<close>

fun slot_after ::
  "(string \<Rightarrow> nat option) \<Rightarrow> (string \<times> spellings) list \<Rightarrow> nat list \<Rightarrow> nat option
     \<Rightarrow> nat option" where
  "slot_after lookup [] l d = d"
| "slot_after lookup ((unicode_text, latex_text) # entries) l d =
     slot_after lookup entries l (if l \<in> set (as_list latex_text) then lookup unicode_text else d)"


section \<open>A fragment of the interpreter's Unicode services\<close>

text \<open>
  Concrete values for the parameters, used where a statement is evaluated at an input.
  \<open>names_fragment\<close> is \<^verbatim>\<open>unicodedata.name\<close> on ASCII (the control characters have no
  name) and on the few other code points listed; elsewhere it is \<open>None\<close>.
\<close>

definition digit_names :: "string list" where
  "digit_names = [''ZERO'', ''ONE'', ''TWO'', ''THREE'', ''FOUR'', ''FIVE'', ''SIX'', ''SEVEN'',
     ''EIGHT'', ''NINE'']"

definition other_names :: "(nat \<times> string) list" where
  "other_names =
     [(32, ''SPACE''), (33, ''EXCLAMATION MARK''), (34, ''QUOTATION MARK''),
      (35, ''NUMBER SIGN''), (36, ''DOLLAR SIGN''), (37, ''PERCENT SIGN''), (38, ''AMPERSAND''),
      (39, ''APOSTROPHE''), (40, ''LEFT PARENTHESIS''), (41, ''RIGHT PARENTHESIS''),
      (42, ''ASTERISK''), (43, ''PLUS SIGN''), (44, ''COMMA''), (45, ''HYPHEN-MINUS''),
      (46, ''FULL STOP''), (47, ''SOLIDUS''), (58, ''COLON''), (59, ''SEMICOLON''),
      (60, ''LESS-THAN SIGN''), (61, ''EQUALS SIGN''), (62, ''GREATER-THAN SIGN''),
      (63, ''QUESTION MARK''), (64, ''COMMERCIAL AT''), (91, ''LEFT SQUARE BRACKET''),
      (92, ''REVERSE SOLIDUS''), (93, ''RIGHT SQUARE BRACKET''), (94, ''CIRCUMFLEX ACCENT''),
      (95, ''LOW LINE''), (96, ''GRAVE ACCENT''), (123, ''LEFT CURLY BRACKET''),
      (124, ''VERTICAL LINE''), (125, ''RIGHT CURLY BRACKET''), (126, ''TILDE''),
      (0xE2, ''LATIN SMALL LETTER A WITH CIRCUMFLEX''),
      (0xE9, ''LATIN SMALL LETTER E WITH ACUTE''),
      (0x300, ''COMBINING GRAVE ACCENT''), (0x301, ''COMBINING ACUTE ACCENT''),
      (0x302, ''COMBINING CIRCUMFLEX ACCENT''), (0x308, ''COMBINING DIAERESIS''),
      (0x323, ''COMBINING DOT BELOW'')]"

definition names_fragment :: "nat \<Rightarrow> string option" where
  "names_fragment c =
     (if 48 \<le> c \<and> c \<le> 57 then Some (''DIGIT '' @ digit_names ! (c - 48))
      else if 65 \<le> c \<and> c \<le> 90 then Some (''LATIN CAPITAL LETTER '' @ [char_of c])
      else if 97 \<le> c \<and> c \<le> 122 then Some (''LATIN SMALL LETTER '' @ [char_of (c - 32)])
      else map_of other_names c)"

text \<open>
  \<open>nfc_fragment\<close> is canonical composition for the pairs listed. It agrees with
  \<^verbatim>\<open>unicodedata.normalize('NFC', _)\<close> on the strings it is applied to below: ASCII text,
  U+00E9, and text in which a combining mark follows a base only in a listed pair.
\<close>

definition compositions :: "((nat \<times> nat) \<times> nat) list" where
  "compositions = [((0x65, 0x301), 0xE9), ((0x61, 0x302), 0xE2), ((0xE2, 0x301), 0x1EA5)]"

fun nfc_fragment :: "ustring \<Rightarrow> ustring" where
  "nfc_fragment (b # m # cs) =
     (case map_of compositions (b, m) of
        Some p \<Rightarrow> nfc_fragment (p # cs)
      | None \<Rightarrow> b # nfc_fragment (m # cs))"
| "nfc_fragment cs = cs"

text \<open>
  \<open>utf8_fragment\<close> is the UTF-8 codec on well-formed input: sequences of one to four bytes
  in shortest form. Other input is answered with \<^verbatim>\<open>UnicodeDecodeError\<close>.
\<close>

definition continuation :: "nat \<Rightarrow> bool" where
  "continuation b \<longleftrightarrow> 0x80 \<le> b \<and> b < 0xC0"

fun utf8_fragment :: "nat list \<Rightarrow> error + ustring" where
  "utf8_fragment [] = Inr []"
| "utf8_fragment (b # bs) =
     (if b < 0x80 then
        (case utf8_fragment bs of Inl e \<Rightarrow> Inl e | Inr t \<Rightarrow> Inr (b # t))
      else if 0xC2 \<le> b \<and> b < 0xE0 then
        (case bs of
           c1 # r \<Rightarrow>
             if continuation c1 then
               (case utf8_fragment r of
                  Inl e \<Rightarrow> Inl e
                | Inr t \<Rightarrow> Inr (((b - 0xC0) * 64 + (c1 - 0x80)) # t))
             else Inl UnicodeDecodeError
         | _ \<Rightarrow> Inl UnicodeDecodeError)
      else if 0xE0 \<le> b \<and> b < 0xF0 then
        (case bs of
           c1 # c2 # r \<Rightarrow>
             (let v = (b - 0xE0) * 4096 + (c1 - 0x80) * 64 + (c2 - 0x80)
              in if continuation c1 \<and> continuation c2 \<and> 0x800 \<le> v then
                   (case utf8_fragment r of Inl e \<Rightarrow> Inl e | Inr t \<Rightarrow> Inr (v # t))
                 else Inl UnicodeDecodeError)
         | _ \<Rightarrow> Inl UnicodeDecodeError)
      else if 0xF0 \<le> b \<and> b < 0xF5 then
        (case bs of
           c1 # c2 # c3 # r \<Rightarrow>
             (let v = (b - 0xF0) * 262144 + (c1 - 0x80) * 4096 + (c2 - 0x80) * 64 + (c3 - 0x80)
              in if continuation c1 \<and> continuation c2 \<and> continuation c3
                    \<and> 0x10000 \<le> v \<and> v < 0x110000 then
                   (case utf8_fragment r of Inl e \<Rightarrow> Inl e | Inr t \<Rightarrow> Inr (v # t))
                 else Inl UnicodeDecodeError)
         | _ \<Rightarrow> Inl UnicodeDecodeError)
      else Inl UnicodeDecodeError)"

text \<open>\<open>lookup_fragment\<close> is \<^verbatim>\<open>unicodedata.lookup\<close> on two names.\<close>

definition lookup_fragment :: "string \<Rightarrow> nat option" where
  "lookup_fragment =
     map_of [(''LATIN CAPITAL LETTER A'', 65), (''LATIN CAPITAL LETTER B'', 66)]"

section \<open>Properties of the legacy codec\<close>

lemma dec_str_digits: "\<forall>c \<in> set (dec_str n). is_digit c"
proof (induction n rule: dec_str.induct)
  case (1 n)
  show ?case
  proof (cases "n < 10")
    case True
    then show ?thesis by (simp add: dec_str.simps [of n] is_digit_def)
  next
    case False
    have "n mod 10 < 10" by simp
    then have "is_digit (48 + n mod 10)" unfolding is_digit_def by linarith
    with False 1 show ?thesis by (simp add: dec_str.simps [of n])
  qed
qed

lemma escape_chunk_ascii: "c \<in> set (escape_chunk o') \<Longrightarrow> c \<le> 127"
  using dec_str_digits [of o'] by (auto simp: escape_chunk_def is_digit_def split: if_splits)

text \<open>
  Claim C9. Every character of \<open>u_escape s\<close> has a code point of at most 127: the output of
  the legacy escape is pure ASCII, for every input string.
\<close>

theorem u_escape_ascii: "\<forall>c \<in> set (u_escape s). c \<le> 127"
  by (auto simp: u_escape_def dest: escape_chunk_ascii)

theorem u_escape_ascii_witness:
  "list_all (\<lambda>c. c \<le> 127) (u_escape [104, 233, 8364, 128512])"
  using u_escape_ascii [of "[104, 233, 8364, 128512]"] by (simp only: list_all_iff)

lemma strip_prefix_Some: "strip_prefix p s = Some r \<longleftrightarrow> s = p @ r"
  by (induction p s rule: strip_prefix.induct) auto

lemma strip_prefix_append [simp]: "strip_prefix p (p @ r) = Some r"
  by (simp add: strip_prefix_Some)

lemma not_digit_93: "\<not> is_digit 93"
  by (simp add: is_digit_def)

lemma pattern_match_intro:
  assumes "\<forall>d \<in> set g. is_digit d" and "3 \<le> length g" and "length g \<le> 5"
  shows "pattern_match ([63, 91, 92, 117] @ g @ 93 # rest) = Some (g, length g + 5)"
proof -
  have "takeWhile is_digit (g @ 93 # rest) = g"
    using assms(1) not_digit_93 by (simp add: takeWhile_tail)
  with assms(2,3) show ?thesis
    unfolding pattern_match_def by (simp add: Let_def)
qed

lemma pattern_match_elim:
  assumes "pattern_match s = Some (g, n)"
  shows "\<exists>rest. s = [63, 91, 92, 117] @ g @ 93 # rest \<and> (\<forall>d \<in> set g. is_digit d)
           \<and> 3 \<le> length g \<and> length g \<le> 5 \<and> n = length g + 5"
proof -
  from assms obtain r where r: "strip_prefix [63, 91, 92, 117] s = Some r"
    by (auto simp: pattern_match_def split: option.splits)
  then have s: "s = [63, 91, 92, 117] @ r" by (simp only: strip_prefix_Some)
  from assms r have g: "g = takeWhile is_digit r" and len: "3 \<le> length g" "length g \<le> 5"
    and n: "n = length g + 5" and nxt: "take 1 (drop (length g) r) = [93]"
    by (auto simp: pattern_match_def Let_def split: if_splits)
  have "r = g @ dropWhile is_digit r" by (simp add: g)
  moreover have "drop (length g) r = dropWhile is_digit r"
    by (simp add: g dropWhile_eq_drop)
  ultimately obtain rest where "r = g @ 93 # rest"
    using nxt by (cases "dropWhile is_digit r") (auto simp: take_Suc_conv_app_nth)
  moreover have "\<forall>d \<in> set g. is_digit d" by (auto simp: g dest: set_takeWhileD)
  ultimately show ?thesis using s len n by auto
qed

lemma u_escape_Nil [simp]: "u_escape [] = []"
  by (simp add: u_escape_def)

lemma u_escape_Cons: "u_escape (c # cs) = escape_chunk c @ u_escape cs"
  by (simp add: u_escape_def)

text \<open>A block of the escaped string without a question mark is literal text of the input.\<close>

lemma u_escape_literal_block:
  "u_escape cs = a @ rest \<Longrightarrow> 63 \<notin> set a \<Longrightarrow> \<exists>rest'. cs = a @ rest'"
proof (induction a arbitrary: cs rest)
  case Nil
  then show ?case by simp
next
  case (Cons x a)
  then obtain c cs' where cs: "cs = c # cs'" by (cases cs) auto
  show ?case
  proof (cases "c \<le> 127")
    case True
    with Cons.prems cs have "c = x" "u_escape cs' = a @ rest"
      by (simp_all add: u_escape_Cons escape_chunk_def)
    with Cons.IH [of cs' rest] Cons.prems(2) cs show ?thesis by auto
  next
    case False
    with Cons.prems cs have "x = 63" by (simp add: u_escape_Cons escape_chunk_def)
    with Cons.prems(2) show ?thesis by simp
  qed
qed

lemma pattern_match_literal:
  assumes "pattern_match (c # u_escape cs) = Some (g, n)"
  shows "pattern_match (c # cs) = Some (g, n)"
proof -
  from pattern_match_elim [OF assms] obtain rest where
    eq: "c # u_escape cs = [63, 91, 92, 117] @ g @ 93 # rest"
    and dg: "\<forall>d \<in> set g. is_digit d" and len: "3 \<le> length g" "length g \<le> 5"
    and n: "n = length g + 5" by blast
  from eq have c: "c = 63" and esc: "u_escape cs = ([91, 92, 117] @ g @ [93]) @ rest" by simp_all
  have "63 \<notin> set ([91, 92, 117] @ g @ [93])" using dg by (auto simp: is_digit_def)
  from u_escape_literal_block [OF esc this] obtain rest' where
    "cs = ([91, 92, 117] @ g @ [93]) @ rest'" by blast
  then have "c # cs = [63, 91, 92, 117] @ g @ 93 # rest'" using c by simp
  then show ?thesis using pattern_match_intro [OF dg len, of rest'] n by simp
qed

lemma length_dec_str_pos: "0 < length (dec_str n)"
  by (subst dec_str.simps) simp

lemma length_dec_str_le: "0 < k \<Longrightarrow> n < 10 ^ k \<Longrightarrow> length (dec_str n) \<le> k"
proof (induction n arbitrary: k rule: dec_str.induct)
  case (1 n)
  show ?case
  proof (cases "n < 10")
    case True
    with 1 show ?thesis by (simp add: dec_str.simps [of n])
  next
    case False
    with "1.prems" obtain k' where k: "k = Suc k'" by (cases k) auto
    with False "1.prems" have "0 < k'" by (cases k') auto
    moreover from k "1.prems" have "n div 10 < 10 ^ k'" by (simp add: less_mult_imp_div_less mult.commute)
    ultimately have "length (dec_str (n div 10)) \<le> k'" using "1.IH" False by simp
    with False k show ?thesis by (simp add: dec_str.simps [of n])
  qed
qed

lemma length_dec_str_ge3: "100 \<le> n \<Longrightarrow> 3 \<le> length (dec_str n)"
proof -
  assume n: "100 \<le> n"
  then have "10 \<le> n div 10" by simp
  then have "dec_str (n div 10) = dec_str (n div 10 div 10) @ [48 + n div 10 mod 10]"
    by (subst dec_str.simps) simp
  moreover have "dec_str n = dec_str (n div 10) @ [48 + n mod 10]"
    using n by (subst dec_str.simps) simp
  moreover have "Suc 0 \<le> length (dec_str (n div 10 div 10))"
    using length_dec_str_pos [of "n div 10 div 10"] by (simp only: Suc_le_eq)
  ultimately show ?thesis by simp
qed

lemma int_of_dec_snoc: "int_of_dec (ds @ [d]) = 10 * int_of_dec ds + (d - 48)"
  by (simp add: int_of_dec_def)

lemma int_of_dec_dec_str: "int_of_dec (dec_str n) = n"
proof (induction n rule: dec_str.induct)
  case (1 n)
  show ?case
  proof (cases "n < 10")
    case True
    then show ?thesis by (simp add: dec_str.simps [of n] int_of_dec_def)
  next
    case False
    with 1 show ?thesis by (simp add: dec_str.simps [of n] int_of_dec_snoc)
  qed
qed

lemma pattern_match_chunk:
  assumes "127 < c" and "c < 100000"
  shows "pattern_match (escape_chunk c @ t) = Some (dec_str c, length (dec_str c) + 5)"
proof -
  have "3 \<le> length (dec_str c)" using assms(1) by (simp add: length_dec_str_ge3)
  moreover have "length (dec_str c) \<le> 5" using assms(2) length_dec_str_le [of 5 c] by simp
  ultimately show ?thesis
    using pattern_match_intro [OF dec_str_digits, of c t] assms(1) by (simp add: escape_chunk_def)
qed

lemma finditer_Nil_Cons:
  "finditer p (c # cs) = [] \<longleftrightarrow> pattern_match (c # cs) = None \<and> finditer (Suc p) cs = []"
  by (auto split: option.splits)

lemma finditer_Nil_pos: "finditer p s = [] \<Longrightarrow> finditer q s = []"
  by (induction s arbitrary: p q) (auto simp: finditer_Nil_Cons simp del: finditer.simps(2))

lemma length_escape_chunk: "127 < c \<Longrightarrow> length (escape_chunk c) = length (dec_str c) + 5"
  by (simp add: escape_chunk_def)

lemma escape_chunk_Cons: "127 < c \<Longrightarrow> escape_chunk c = 63 # tl (escape_chunk c)"
  by (simp add: escape_chunk_def)

lemma finditer_chunk:
  assumes "127 < c" and "c < 100000"
  shows "finditer q (escape_chunk c @ t) =
           (q, q + length (escape_chunk c), dec_str c) # finditer (q + length (escape_chunk c)) t"
proof -
  obtain r where r: "escape_chunk c @ t = 63 # r"
    using escape_chunk_Cons [OF assms(1)] by (metis append_Cons)
  have "pattern_match (63 # r) = Some (dec_str c, length (escape_chunk c))"
    using pattern_match_chunk [OF assms, of t] r length_escape_chunk [OF assms(1)] by simp
  then have "finditer q (63 # r) = (q, q + length (escape_chunk c), dec_str c)
       # finditer (q + length (escape_chunk c)) (drop (length (escape_chunk c)) (63 # r))"
    by simp
  then show ?thesis by (simp add: r [symmetric])
qed

lemma finditer_literal:
  assumes "pattern_match (c # cs) = None"
  shows "finditer q (c # u_escape cs) = finditer (Suc q) (u_escape cs)"
proof -
  have "pattern_match (c # u_escape cs) = None"
  proof (cases "pattern_match (c # u_escape cs)")
    case None
    then show ?thesis .
  next
    case (Some m)
    then obtain g n where "pattern_match (c # u_escape cs) = Some (g, n)" by (cases m) auto
    from pattern_match_literal [OF this] assms show ?thesis by simp
  qed
  then show ?thesis by simp
qed

lemma iterchunks_u_escape:
  assumes "finditer p s = []" and "\<forall>c \<in> set s. c < 100000"
    and "drop pos full = u @ u_escape s"
  shows "\<exists>chunks. iterchunks full pos (finditer (pos + length u) (u_escape s)) = Inr chunks
           \<and> concat chunks = u @ s"
  using assms
proof (induction s arbitrary: p pos u)
  case Nil
  then show ?case by simp
next
  case (Cons c cs)
  from Cons.prems(1) have nomatch: "pattern_match (c # cs) = None"
    and rest: "finditer (Suc p) cs = []"
    by (simp_all only: finditer_Nil_Cons)
  from Cons.prems(2) have small: "c < 100000" "\<forall>c \<in> set cs. c < 100000" by simp_all
  show ?case
  proof (cases "c \<le> 127")
    case True
    then have esc: "u_escape (c # cs) = c # u_escape cs"
      by (simp add: u_escape_Cons escape_chunk_def)
    from Cons.prems(3) esc have "drop pos full = (u @ [c]) @ u_escape cs" by simp
    from Cons.IH [OF rest small(2) this] obtain chunks where
      "iterchunks full pos (finditer (pos + length (u @ [c])) (u_escape cs)) = Inr chunks"
      "concat chunks = (u @ [c]) @ cs" by blast
    then show ?thesis
      by (simp add: esc finditer_literal [OF nomatch] del: finditer.simps)
  next
    case False
    then have big: "127 < c" by simp
    let ?k = "length (escape_chunk c)"
    have esc: "u_escape (c # cs) = escape_chunk c @ u_escape cs" by (simp add: u_escape_Cons)
    have "drop (pos + length u + ?k) full = drop (length u + ?k) (drop pos full)"
      by (simp add: add.commute add.left_commute)
    also have "\<dots> = [] @ u_escape cs" using Cons.prems(3) esc by simp
    finally have "drop (pos + length u + ?k) full = [] @ u_escape cs" .
    from Cons.IH [OF rest small(2) this] obtain chunks where
      ch: "iterchunks full (pos + length u + ?k) (finditer (pos + length u + ?k) (u_escape cs)) = Inr chunks"
      "concat chunks = cs" by auto
    have sl: "slice full pos (pos + length u) = u"
      using Cons.prems(3) by (simp add: slice_def)
    have uc: "unichr (int_of_dec (dec_str c)) = Inr c"
      using small(1) by (simp add: int_of_dec_dec_str unichr_def)
    show ?thesis
      using ch sl uc by (simp add: esc finditer_chunk [OF big small(1)] del: finditer.simps)
  qed
qed

text \<open>The pattern finds nothing in a string exactly when it matches at no place of it.\<close>

lemma finditer_empty_iff:
  "finditer p s = [] \<longleftrightarrow> (\<forall>i < length s. pattern_match (drop i s) = None)"
proof (induction s arbitrary: p)
  case Nil
  then show ?case by simp
next
  case (Cons c cs)
  have "(\<forall>i < length (c # cs). pattern_match (drop i (c # cs)) = None)
      \<longleftrightarrow> pattern_match (c # cs) = None \<and> (\<forall>i < length cs. pattern_match (drop i cs) = None)"
    by (auto simp: less_Suc_eq_0_disj)
  with Cons [of "Suc p"] show ?case by (simp only: finditer_Nil_Cons)
qed

text \<open>
  Claim C2 (as amended). For every string \<open>s\<close> in which the pattern of \<open>u_unescape\<close> finds
  no match (\<open>s\<close> holds no literal text of the shape \<^verbatim>\<open>?[\u\<close>, three to five digits,
  \<^verbatim>\<open>]\<close>) and whose code points are all below 100000 (so that their decimal form has at
  most five digits), \<open>u_unescape (u_escape s)\<close> returns \<open>s\<close>.
\<close>

theorem u_unescape_u_escape:
  assumes "finditer 0 s = []" and "\<forall>c \<in> set s. c < 100000"
  shows "u_unescape (u_escape s) = Inr s"
  using iterchunks_u_escape [OF assms, of 0 "u_escape s" "[]"]
  by (auto simp: u_unescape_def)

theorem u_unescape_u_escape_witness:
  "u_unescape (u_escape [63, 91, 104, 233, 8364, 99999]) = Inr [63, 91, 104, 233, 8364, 99999]"
proof -
  have "finditer 0 [63, 91, 104, 233, 8364, 99999] = []"
    by (simp add: pattern_match_def)
  moreover have "\<forall>c \<in> set [63, 91, 104, 233, 8364, 99999]. c < (100000 :: nat)"
    by simp
  ultimately show ?thesis by (rule u_unescape_u_escape)
qed

text \<open>
  The claim as stated, for every string, fails on the ASCII string \<^verbatim>\<open>?[\u233]\<close>: it is
  escaped to itself and unescaped to the one character U+00E9.
\<close>

theorem u_unescape_u_escape_counterexample:
  "u_unescape (u_escape [63, 91, 92, 117, 50, 51, 51, 93]) = Inr [233]
   \<and> u_unescape (u_escape [63, 91, 92, 117, 50, 51, 51, 93])
       \<noteq> Inr [63, 91, 92, 117, 50, 51, 51, 93]"
  by (simp add: u_unescape_def u_escape_def escape_chunk_def pattern_match_def is_digit_def
      int_of_dec_def unichr_def slice_def)

text \<open>
  A code point of six or seven decimal digits is escaped but not unescaped: the pattern asks
  for three to five digits. U+1F600 comes back as the eleven characters of its escape.
\<close>

lemma u_unescape_six_digits:
  "u_unescape (u_escape [128512]) = Inr [63, 91, 92, 117, 49, 50, 56, 53, 49, 50, 93]"
  by (simp add: u_unescape_def u_escape_def escape_chunk_def pattern_match_def is_digit_def
      int_of_dec_def unichr_def slice_def dec_str.simps)

section \<open>Properties of the reordering pass\<close>

lemma drain_eq: "drain n comb = (n @ rev comb, [])"
proof (induction n comb rule: drain.induct)
  case (1 n comb)
  show ?case
  proof (cases "comb = []")
    case True
    then show ?thesis by (simp add: drain.simps [of n "[]"])
  next
    case False
    then have "comb = butlast comb @ [last comb]" by simp
    then have "rev comb = last comb # rev (butlast comb)"
      by (metis rev_eq_Cons_iff rev_rev_ident)
    then have "n @ rev comb = (n @ [last comb]) @ rev (butlast comb)" by simp
    moreover have "drain n comb = drain (n @ [last comb]) (butlast comb)"
      using False by (subst drain.simps) simp
    ultimately show ?thesis using 1 [OF False] by (simp only:)
  qed
qed

lemma reorder_step_mark:
  "is_combining name c \<Longrightarrow> reorder_step name (n, comb) c = (n, comb @ [c])"
  by (simp add: reorder_step_def)

lemma reorder_step_base:
  "\<not> is_combining name c \<Longrightarrow> reorder_step name (n, comb) c = (n @ c # rev comb, [])"
  by (simp add: reorder_step_def drain_eq)

lemma foldl_reorder_marks:
  "list_all (is_combining name) ms \<Longrightarrow>
     foldl (reorder_step name) (n, comb) ms = (n, comb @ ms)"
  by (induction ms arbitrary: comb) (simp_all add: reorder_step_mark)

text \<open>What the loop has written so far stays in front.\<close>

lemma foldl_reorder_prefix:
  "foldl (reorder_step name) (n, comb) s =
     (n @ fst (foldl (reorder_step name) ([], comb) s), snd (foldl (reorder_step name) ([], comb) s))"
proof (induction s arbitrary: n comb)
  case Nil
  then show ?case by simp
next
  case (Cons c s)
  show ?case
  proof (cases "is_combining name c")
    case True
    then show ?thesis using Cons [of n "comb @ [c]"] by (simp add: reorder_step_mark)
  next
    case False
    then show ?thesis
      using Cons [of "n @ c # rev comb" "[]"] Cons [of "c # rev comb" "[]"]
      by (simp add: reorder_step_base)
  qed
qed

text \<open>Behind a character that is no mark the buffer is empty.\<close>

lemma foldl_reorder_buffer_empty:
  "p \<noteq> [] \<Longrightarrow> \<not> is_combining name (last p) \<Longrightarrow>
     snd (foldl (reorder_step name) st p) = []"
proof (induction p arbitrary: st)
  case Nil
  then show ?case by simp
next
  case (Cons c p)
  obtain n comb where st: "st = (n, comb)" by (cases st)
  show ?case
  proof (cases "p = []")
    case True
    with Cons.prems st show ?thesis by (simp add: reorder_step_base)
  next
    case False
    with Cons show ?thesis by simp
  qed
qed

lemma foldl_reorder_mset:
  "foldl (reorder_step name) (n, comb) p = (n', comb') \<Longrightarrow>
     mset n' + mset comb' = mset n + mset comb + mset p"
proof (induction p arbitrary: n comb)
  case Nil
  then show ?case by simp
next
  case (Cons c p)
  show ?case
  proof (cases "is_combining name c")
    case True
    with Cons.prems have "foldl (reorder_step name) (n, comb @ [c]) p = (n', comb')"
      by (simp add: reorder_step_mark)
    from Cons.IH [OF this] show ?thesis by simp
  next
    case False
    with Cons.prems have "foldl (reorder_step name) (n @ c # rev comb, []) p = (n', comb')"
      by (simp add: reorder_step_base)
    from Cons.IH [OF this] show ?thesis by simp
  qed
qed

lemma reorder_combining_append:
  assumes "p = [] \<or> \<not> is_combining name (last p)"
  shows "reorder_combining name (p @ q) = reorder_combining name p @ reorder_combining name q"
proof (cases "p = []")
  case True
  then show ?thesis by (simp add: reorder_combining_def)
next
  case False
  with assms have "snd (foldl (reorder_step name) ([], []) p) = []"
    by (simp add: foldl_reorder_buffer_empty)
  then have "foldl (reorder_step name) ([], []) p = (reorder_combining name p, [])"
    by (simp add: reorder_combining_def prod_eq_iff)
  then show ?thesis
    using foldl_reorder_prefix [of name "reorder_combining name p" "[]" q]
    by (simp add: reorder_combining_def)
qed

lemma reorder_combining_marks_base:
  assumes "list_all (is_combining name) ms" and "\<not> is_combining name b"
  shows "reorder_combining name (ms @ [b]) = b # rev ms"
  using assms by (simp add: reorder_combining_def foldl_reorder_marks reorder_step_base)

text \<open>
  Claim C10. For every string that ends in combining marks with no other character behind
  them, the reordering pass drops those marks: the output is the output for the string
  without them, and it consists of exactly the characters in front of them.
\<close>

theorem reorder_combining_drops_trailing_marks:
  assumes "list_all (is_combining name) ms" and "p = [] \<or> \<not> is_combining name (last p)"
  shows "reorder_combining name (p @ ms) = reorder_combining name p
         \<and> mset (reorder_combining name p) = mset p"
proof
  obtain n comb where st: "foldl (reorder_step name) ([], []) p = (n, comb)"
    by (cases "foldl (reorder_step name) ([], []) p")
  from assms(1) have "foldl (reorder_step name) (n, comb) ms = (n, comb @ ms)"
    by (rule foldl_reorder_marks)
  with st show "reorder_combining name (p @ ms) = reorder_combining name p"
    by (simp add: reorder_combining_def)
  have "comb = []"
  proof (cases "p = []")
    case True
    with st show ?thesis by simp
  next
    case False
    with assms(2) have "snd (foldl (reorder_step name) ([], []) p) = []"
      by (simp add: foldl_reorder_buffer_empty)
    with st show ?thesis by simp
  qed
  with foldl_reorder_mset [OF st] st show "mset (reorder_combining name p) = mset p"
    by (simp add: reorder_combining_def)
qed

lemmas names_fragment_simps =
  is_combining_def names_fragment_def other_names_def digit_names_def startswith_def

theorem reorder_combining_drops_trailing_marks_witness:
  "reorder_combining names_fragment [0x61, 0x62, 0x301, 0x308] = reorder_combining names_fragment [0x61, 0x62]
   \<and> reorder_combining names_fragment [0x61, 0x62, 0x301, 0x308] = [0x61, 0x62]"
proof -
  have "list_all (is_combining names_fragment) [0x301, 0x308]"
    by (simp add: names_fragment_simps)
  moreover have "[0x61, 0x62] = [] \<or> \<not> is_combining names_fragment (last [0x61, 0x62])"
    by (simp add: names_fragment_simps)
  ultimately have "reorder_combining names_fragment ([0x61, 0x62] @ [0x301, 0x308])
      = reorder_combining names_fragment [0x61, 0x62]"
    using reorder_combining_drops_trailing_marks by blast
  moreover have "reorder_combining names_fragment [0x61, 0x62] = [0x61, 0x62]"
    by (simp add: reorder_combining_def reorder_step_def drain_eq names_fragment_simps)
  ultimately show ?thesis by simp
qed

text \<open>
  Claim C4 (as amended). Consecutive combining marks in front of a character that is no
  mark are written behind that character in reverse order, the mark nearest to the
  character first: the buffer is emptied with \<^verbatim>\<open>pop()\<close>, from its end. The text in front
  (not ending in a mark) and the text behind are reordered on their own.
\<close>

theorem reorder_combining_reverses_marks:
  assumes "list_all (is_combining name) ms" and "\<not> is_combining name b"
    and "p = [] \<or> \<not> is_combining name (last p)"
  shows "reorder_combining name (p @ ms @ b # q)
           = reorder_combining name p @ b # rev ms @ reorder_combining name q"
proof -
  have "reorder_combining name (p @ (ms @ [b]) @ q)
          = reorder_combining name p @ reorder_combining name ((ms @ [b]) @ q)"
    using assms(3) by (rule reorder_combining_append)
  also have "reorder_combining name ((ms @ [b]) @ q)
          = reorder_combining name (ms @ [b]) @ reorder_combining name q"
    using assms(2) by (intro reorder_combining_append) simp
  finally show ?thesis
    using reorder_combining_marks_base [OF assms(1,2)] by simp
qed

theorem reorder_combining_reverses_marks_witness:
  "reorder_combining names_fragment [0x78, 0x301, 0x302, 0x61, 0x62] = [0x78, 0x61, 0x302, 0x301, 0x62]"
proof -
  have "list_all (is_combining names_fragment) [0x301, 0x302]"
    by (simp add: names_fragment_simps)
  moreover have "\<not> is_combining names_fragment 0x61"
    by (simp add: names_fragment_simps)
  moreover have "[0x78] = [] \<or> \<not> is_combining names_fragment (last [0x78])"
    by (simp add: names_fragment_simps)
  ultimately have "reorder_combining names_fragment ([0x78] @ [0x301, 0x302] @ 0x61 # [0x62])
      = reorder_combining names_fragment [0x78] @ 0x61 # rev [0x301, 0x302]
          @ reorder_combining names_fragment [0x62]"
    by (rule reorder_combining_reverses_marks)
  moreover have "reorder_combining names_fragment [0x78] = [0x78]"
    "reorder_combining names_fragment [0x62] = [0x62]"
    by (simp_all add: reorder_combining_def reorder_step_def drain_eq names_fragment_simps)
  ultimately show ?thesis by simp
qed

text \<open>
  The claim as stated, that two stacked marks keep the order in which they were read,
  fails: acute, circumflex, \<^verbatim>\<open>a\<close> becomes \<^verbatim>\<open>a\<close>, circumflex, acute.
\<close>

theorem reorder_combining_order_counterexample:
  "reorder_combining names_fragment [0x301, 0x302, 0x61] = [0x61, 0x302, 0x301]
   \<and> reorder_combining names_fragment [0x301, 0x302, 0x61] \<noteq> [0x61, 0x301, 0x302]"
  by (simp add: reorder_combining_def reorder_step_def drain_eq names_fragment_simps)

section \<open>Substitution on text that starts no match\<close>

lemma re_sub_append:
  "\<forall>c \<in> set p. \<forall>cs. m (c # cs) = None \<Longrightarrow> re_sub m (p @ s) = p @ re_sub m s"
  by (induction p) simp_all

lemma re_sub_id: "\<forall>c \<in> set s. \<forall>cs. m (c # cs) = None \<Longrightarrow> re_sub m s = s"
  using re_sub_append [of s m "[]"] by simp

lemma re_sub_err_append:
  "\<forall>c \<in> set p. \<forall>cs. m (c # cs) = None \<Longrightarrow>
     re_sub_err m (p @ s) = (case re_sub_err m s of Inl e \<Rightarrow> Inl e | Inr t \<Rightarrow> Inr (p @ t))"
  by (induction p) (simp_all split: sum.splits)

lemma re_sub_err_id: "\<forall>c \<in> set s. \<forall>cs. m (c # cs) = None \<Longrightarrow> re_sub_err m s = Inr s"
  using re_sub_err_append [of s m "[]"] by simp

lemma command_match_first: "c \<noteq> 92 \<Longrightarrow> command_match name (c # cs) = None"
  by (simp add: command_match_def)

lemma debracket_match_first: "c \<noteq> 123 \<Longrightarrow> debracket_match (c # cs) = None"
  by (simp add: debracket_match_def)

lemma amp_hash_match_first: "c \<noteq> 38 \<Longrightarrow> amp_hash_match (c # cs) = None"
  by (simp add: amp_hash_match_def)

lemma numcharref_match1_first: "c \<noteq> 92 \<Longrightarrow> c \<noteq> 38 \<Longrightarrow> numcharref_match1 (c # cs) = None"
  by (simp add: numcharref_match1_def amp_hash_match_first)

lemma numcharref_match2_first: "c \<noteq> 63 \<Longrightarrow> numcharref_match2 (c # cs) = None"
  by (simp add: numcharref_match2_def)

lemma language_tag_match_first: "c \<noteq> 92 \<Longrightarrow> language_tag_match (c # cs) = None"
  by (simp add: language_tag_match_def)

lemma str_replace_append:
  "\<forall>c \<in> set p. c \<noteq> x \<Longrightarrow> str_replace (x # old) new (p @ s) = p @ str_replace (x # old) new s"
  unfolding str_replace_def by (rule re_sub_append) auto

lemma str_replace_id: "\<forall>c \<in> set s. c \<noteq> x \<Longrightarrow> str_replace (x # old) new s = s"
  using str_replace_append [of s x old new "[]"] by (simp add: str_replace_def)

lemma unwrap_commands_append:
  "92 \<notin> set p \<Longrightarrow> unwrap_commands (p @ s) = p @ unwrap_commands s"
proof -
  assume p: "92 \<notin> set p"
  have "\<And>name t. re_sub (command_match name) (p @ t) = p @ re_sub (command_match name) t"
    using p by (intro re_sub_append) (auto intro!: command_match_first)
  then show ?thesis by (simp add: unwrap_commands_def command_names_def)
qed

lemma unwrap_commands_id: "92 \<notin> set s \<Longrightarrow> unwrap_commands s = s"
  using unwrap_commands_append [of s "[]"] by (simp add: unwrap_commands_def command_names_def)

lemma remove_braces_id: "123 \<notin> set s \<Longrightarrow> remove_braces s = s"
proof -
  assume s: "123 \<notin> set s"
  then have "str_replace [123, 125] [] s = s" by (intro str_replace_id) auto
  moreover have "re_sub debracket_match s = s"
    using s by (intro re_sub_id) (auto intro!: debracket_match_first)
  ultimately show ?thesis by (simp add: remove_braces_def)
qed

lemma strip_commands_append:
  "92 \<notin> set p \<Longrightarrow> strip_commands (p @ s) = p @ strip_commands s"
proof -
  assume p: "92 \<notin> set p"
  have "\<And>cmd t. str_replace ([92] @ cmd @ [32]) [] (p @ t) = p @ str_replace ([92] @ cmd @ [32]) [] t"
  proof -
    fix cmd t
    have "\<forall>c \<in> set p. c \<noteq> 92" using p by auto
    from str_replace_append [OF this, of "cmd @ [32]" "[]" t]
    show "str_replace ([92] @ cmd @ [32]) [] (p @ t) = p @ str_replace ([92] @ cmd @ [32]) [] t"
      by simp
  qed
  then show ?thesis by (simp add: strip_commands_def stripped_commands_def)
qed


lemma recode_language_tags_append:
  "92 \<notin> set p \<Longrightarrow>
     recode_language_tags (p @ s)
       = (case recode_language_tags s of Inl e \<Rightarrow> Inl e | Inr t \<Rightarrow> Inr (p @ t))"
  unfolding recode_language_tags_def
  by (rule re_sub_err_append) (auto intro!: language_tag_match_first)

lemma recode_language_tags_id: "92 \<notin> set s \<Longrightarrow> recode_language_tags s = Inr s"
  using recode_language_tags_append [of s "[]"] by (simp add: recode_language_tags_def)

lemma reorder_combining_id: "no_marks name s \<Longrightarrow> reorder_combining name s = s"
proof -
  have "no_marks name s \<Longrightarrow> foldl (reorder_step name) (n, []) s = (n @ s, [])" for n
    by (induction s arbitrary: n) (simp_all add: no_marks_def reorder_step_base)
  then show "no_marks name s \<Longrightarrow> reorder_combining name s = s"
    by (simp add: reorder_combining_def)
qed

lemma resolve_numcharrefs_id:
  "92 \<notin> set s \<Longrightarrow> 38 \<notin> set s \<Longrightarrow> 63 \<notin> set s \<Longrightarrow> resolve_numcharrefs s = Inr s"
proof -
  assume s: "92 \<notin> set s" "38 \<notin> set s" "63 \<notin> set s"
  then have "re_sub_err numcharref_match1 s = Inr s"
    by (intro re_sub_err_id) (auto intro!: numcharref_match1_first)
  moreover have "re_sub_err numcharref_match2 s = Inr s"
    using s by (intro re_sub_err_id) (auto intro!: numcharref_match2_first)
  ultimately show ?thesis by (simp add: resolve_numcharrefs_def)
qed

lemma plain_set: "list_all plain s \<Longrightarrow> 92 \<notin> set s \<and> 123 \<notin> set s \<and> 38 \<notin> set s \<and> 63 \<notin> set s"
  by (auto simp: list_all_iff plain_def)

section \<open>Substitution across a place where no match can pass\<close>

lemma strip_prefix_boundary:
  "b \<notin> set t \<Longrightarrow>
     strip_prefix t (y @ b # q) = map_option (\<lambda>r. r @ b # q) (strip_prefix t y)"
  by (induction t y rule: strip_prefix.induct) auto

text \<open>
  Where the matches that start in \<open>p\<close> are the matches of \<open>p\<close> alone, substitution in
  \<open>p @ q\<close> is substitution in \<open>p\<close> and in \<open>q\<close>. The condition on the last character of
  \<open>p\<close> is handed down to the rests of \<open>p\<close>.
\<close>

lemma re_sub_err_boundary:
  assumes bd: "\<And>x. x \<noteq> [] \<Longrightarrow> ok (last x) \<Longrightarrow> m (x @ q) = m x"
    and len: "\<And>x rep n. m x = Some (rep, n) \<Longrightarrow> n \<le> length x"
  shows "p = [] \<or> ok (last p) \<Longrightarrow>
     re_sub_err m (p @ q)
       = (case re_sub_err m p of
            Inl e \<Rightarrow> Inl e
          | Inr p' \<Rightarrow> (case re_sub_err m q of Inl e \<Rightarrow> Inl e | Inr q' \<Rightarrow> Inr (p' @ q')))"
proof (induction p rule: length_induct)
  case (1 p)
  show ?case
  proof (cases p)
    case Nil
    then show ?thesis by (simp split: sum.splits)
  next
    case (Cons c cs)
    with "1.prems" have okp: "ok (last (c # cs))" by simp
    then have m: "m ((c # cs) @ q) = m (c # cs)" by (intro bd) simp
    have tl: "re_sub_err m (cs @ q)
        = (case re_sub_err m cs of
             Inl e \<Rightarrow> Inl e
           | Inr p' \<Rightarrow> (case re_sub_err m q of Inl e \<Rightarrow> Inl e | Inr q' \<Rightarrow> Inr (p' @ q')))"
    proof -
      have "cs = [] \<or> ok (last cs)" using okp by (cases cs) auto
      moreover have "length cs < length p" using Cons by simp
      ultimately show ?thesis using "1.IH" by blast
    qed
    show ?thesis
    proof (cases "m (c # cs)")
      case None
      with m tl Cons show ?thesis by (simp split: sum.splits)
    next
      case (Some a)
      obtain rep n where a: "a = (rep, n)" by (cases a)
      show ?thesis
      proof (cases "0 < n")
        case False
        with m tl Cons Some a show ?thesis by (simp split: sum.splits)
      next
        case True
        from len Some a have le: "n \<le> length (c # cs)" by blast
        have "drop n ((c # cs) @ q) = drop n (c # cs) @ drop (n - length (c # cs)) q"
          by (rule drop_append)
        with le have dr: "drop n ((c # cs) @ q) = drop n (c # cs) @ q" by simp
        have "drop n (c # cs) = [] \<or> ok (last (drop n (c # cs)))"
          using okp by (cases "drop n (c # cs) = []") (simp_all add: last_drop)
        moreover have "length (drop n (c # cs)) < length p" using Cons True by simp
        ultimately have "re_sub_err m (drop n (c # cs) @ q)
            = (case re_sub_err m (drop n (c # cs)) of
                 Inl e \<Rightarrow> Inl e
               | Inr p' \<Rightarrow> (case re_sub_err m q of Inl e \<Rightarrow> Inl e | Inr q' \<Rightarrow> Inr (p' @ q')))"
          using "1.IH" by blast
        with m dr Cons Some a True show ?thesis
          by (cases rep) (simp_all split: sum.splits del: drop_Suc_Cons)
      qed
    qed
  qed
qed

section \<open>Properties of the language tags\<close>

lemma strip_prefix_None: "strip_prefix p s = None \<longleftrightarrow> (\<forall>r. s \<noteq> p @ r)"
  by (metis strip_prefix_Some option.exhaust option.distinct(1))

lemma tag_match_in_tags: "tag_match tags r = Some (tag, n) \<Longrightarrow> tag \<in> set tags \<and> 0 < n"
  by (induction tags) (auto simp: Let_def split: option.splits if_splits)

lemma language_tags_distinct: "distinct (map fst language_tags)"
  by (simp add: language_tags_def ustr_def)

lemma language_tag_repl_key:
  "tag \<in> set (map fst language_tags) \<Longrightarrow> \<exists>code. map_of language_tags tag = Some code"
  by (metis map_of_eq_None_iff not_Some_eq set_map)

text \<open>The lookup in the replacement function finds every tag the pattern can match, so
  \<open>recode_language_tags\<close> does not raise.\<close>

lemma language_tag_match_Inr:
  "language_tag_match s = Some (rep, n) \<Longrightarrow> (\<exists>t. rep = Inr t) \<and> 0 < n"
  unfolding language_tag_match_def language_tag_repl_def
  by (auto split: option.splits dest!: tag_match_in_tags language_tag_repl_key)

lemma re_sub_err_total:
  assumes m_ok: "\<And>s rep n. m s = Some (rep, n) \<Longrightarrow> \<exists>t. rep = Inr t"
  shows "\<exists>t. re_sub_err m s = Inr t"
proof (induction s rule: length_induct)
  case (1 s)
  show ?case
  proof (cases s)
    case Nil
    then show ?thesis by simp
  next
    case (Cons c cs)
    with 1 obtain t1 where t1: "re_sub_err m cs = Inr t1" by auto
    show ?thesis
    proof (cases "m (c # cs)")
      case None
      with Cons t1 show ?thesis by simp
    next
      case (Some a)
      obtain rep n where a: "a = (rep, n)" by (cases a)
      with Some m_ok obtain t where t: "rep = Inr t" by blast
      show ?thesis
      proof (cases "0 < n")
        case True
        then have "length (drop n (c # cs)) < length s" using Cons by simp
        with 1 obtain t2 where "re_sub_err m (drop n (c # cs)) = Inr t2" by blast
        with Cons Some a t True show ?thesis by simp
      next
        case False
        with Cons Some a t1 show ?thesis by simp
      qed
    qed
  qed
qed

lemma recode_language_tags_total: "\<exists>t. recode_language_tags s = Inr t"
  unfolding recode_language_tags_def
  by (rule re_sub_err_total) (blast dest: language_tag_match_Inr)

lemma language_tags_no_space: "\<forall>tag \<in> set (map fst language_tags). \<not> (\<exists>c \<in> set tag. is_space c)"
  by (simp add: language_tags_def ustr_def is_space_def)

text \<open>Two tags without whitespace that are both followed by whitespace at the start of
  one string are the same tag.\<close>

lemma same_tag:
  assumes "t' @ r' = tag @ w # r" and "is_space w" and "r' \<noteq> []" and "is_space (hd r')"
    and "\<forall>c \<in> set t'. \<not> is_space c" and "\<forall>c \<in> set tag. \<not> is_space c"
  shows "t' = tag \<and> r' = w # r"
proof -
  from assms(3) obtain w' r'' where r': "r' = w' # r''" by (cases r') auto
  with assms(4) have w': "is_space w'" by simp
  from assms(1) r' have "t' @ w' # r'' = tag @ w # r" by simp
  then consider (eq) "t' = tag" "w' # r'' = w # r"
    | (left) us where "t' = tag @ w # us"
    | (right) us where "tag = t' @ w' # us"
    by (auto simp: append_eq_append_conv2 append_eq_Cons_conv Cons_eq_append_conv)
  then show ?thesis
  proof cases
    case eq
    with r' show ?thesis by simp
  next
    case left
    with assms(2,5) show ?thesis by auto
  next
    case right
    with w' assms(6) show ?thesis by auto
  qed
qed

lemma tag_match_tag:
  assumes "tag \<in> set tags" and "\<forall>t \<in> set tags. \<forall>c \<in> set t. \<not> is_space c"
    and "ws \<noteq> []" and "list_all is_space ws" and "r = [] \<or> \<not> is_space (hd r)"
  shows "tag_match tags (tag @ ws @ r) = Some (tag, length tag + length ws)"
  using assms(1,2)
proof (induction tags)
  case Nil
  then show ?case by simp
next
  case (Cons t' tags)
  from assms(3) obtain w ws' where ws: "ws = w # ws'" by (cases ws) auto
  with assms(4) have w: "is_space w" by simp
  have tw: "takeWhile is_space (ws @ r) = ws"
  proof (cases r)
    case Nil
    with assms(4) show ?thesis by (simp add: list_all_iff)
  next
    case (Cons x xs)
    with assms(5) have "\<not> is_space x" by simp
    with Cons assms(4) show ?thesis by (simp add: takeWhile_tail list_all_iff)
  qed
  show ?case
  proof (cases "strip_prefix t' (tag @ ws @ r)")
    case None
    then have "t' \<noteq> tag" by (auto simp: strip_prefix_None)
    with None Cons show ?thesis by simp
  next
    case (Some r')
    then have eq: "t' @ r' = tag @ w # (ws' @ r)" by (simp add: strip_prefix_Some ws)
    show ?thesis
    proof (cases "takeWhile is_space r' = []")
      case True
      have "t' \<noteq> tag"
      proof
        assume "t' = tag"
        with eq have "r' = ws @ r" by (simp add: ws)
        with True tw assms(3) show False by simp
      qed
      with Some True Cons show ?thesis by simp
    next
      case False
      then have "r' \<noteq> []" "is_space (hd r')"
        by (auto simp: takeWhile_eq_Nil_iff)
      moreover have "\<forall>c \<in> set t'. \<not> is_space c" using Cons.prems(2) by simp
      moreover have "\<forall>c \<in> set tag. \<not> is_space c" using Cons.prems by blast
      ultimately have "t' = tag \<and> r' = w # (ws' @ r)" by (rule same_tag [OF eq w])
      then have "t' = tag" "r' = ws @ r" by (simp_all add: ws)
      with Some tw assms(3) show ?thesis by simp
    qed
  qed
qed

lemma language_tags_letters:
  "\<forall>tag \<in> set (map fst language_tags). tag \<noteq> [] \<and> (\<forall>c \<in> set tag. 97 \<le> c \<and> c \<le> 122)"
  by (simp add: language_tags_def ustr_def)

lemma language_tags_not_stripped:
  "\<forall>tag \<in> set (map fst language_tags). tag \<notin> set stripped_commands"
  by (simp add: language_tags_def stripped_commands_def ustr_def)

lemma stripped_commands_no_space: "\<forall>cmd \<in> set stripped_commands. \<forall>c \<in> set cmd. \<not> is_space c"
  by (simp add: stripped_commands_def ustr_def is_space_def)

lemma command_names_no_space: "\<forall>name \<in> set command_names. \<forall>c \<in> set name. \<not> is_space c"
  by (simp add: command_names_def ustr_def is_space_def)

lemma re_sub_Cons_id:
  "m (c # s) = None \<Longrightarrow> \<forall>c \<in> set s. \<forall>cs. m (c # cs) = None \<Longrightarrow> re_sub m (c # s) = c # s"
  by (simp add: re_sub_id)

lemma re_sub_err_Cons_id:
  "m (c # s) = None \<Longrightarrow> \<forall>c \<in> set s. \<forall>cs. m (c # cs) = None \<Longrightarrow> re_sub_err m (c # s) = Inr (c # s)"
  by (simp add: re_sub_err_id)

text \<open>A tag behind its backslash, whitespace and plain text: what each step makes of it.\<close>

lemma tagged_text:
  assumes tag: "tag \<in> set (map fst language_tags)"
    and ws: "ws \<noteq> []" "list_all is_space ws"
    and r: "list_all plain r"
  shows "unwrap_commands (92 # tag @ ws @ r) = 92 # tag @ ws @ r"
    and "remove_braces (92 # tag @ ws @ r) = 92 # tag @ ws @ r"
    and "resolve_numcharrefs (92 # tag @ ws @ r) = Inr (92 # tag @ ws @ r)"
    and "strip_commands (92 # tag @ ws @ r) = 92 # tag @ ws @ r"
proof -
  let ?Y = "tag @ ws @ r"
  from ws obtain w ws' where wsd: "ws = w # ws'" and w: "is_space w" by (cases ws) auto
  from tag language_tags_letters have tagne: "tag \<noteq> []"
    and letters: "\<forall>c \<in> set tag. 97 \<le> c \<and> c \<le> 122" by auto
  from tag language_tags_no_space have tagsp: "\<forall>c \<in> set tag. \<not> is_space c" by auto
  have free: "92 \<notin> set ?Y" "123 \<notin> set ?Y" "38 \<notin> set ?Y" "63 \<notin> set ?Y"
    using letters ws(2) plain_set [OF r] by (auto simp: list_all_iff is_space_def)
  have hd123: "123 # t \<noteq> ws' @ r" for t
    using ws(2) free(2) wsd by (cases ws') (auto simp: is_space_def)
  have cmd: "command_match name (92 # ?Y) = None" if "name \<in> set command_names" for name
  proof (cases "strip_prefix ([92] @ name @ [32, 123]) (92 # ?Y)")
    case None
    then show ?thesis by (simp add: command_match_def)
  next
    case (Some r')
    then have "name @ (32 # 123 # r') = tag @ w # (ws' @ r)" by (simp add: strip_prefix_Some wsd)
    from same_tag [OF this w] that command_names_no_space tagsp
    have "32 # 123 # r' = w # (ws' @ r)" by (auto simp: is_space_def)
    with hd123 show ?thesis by auto
  qed
  have "re_sub (command_match name) (92 # ?Y) = 92 # ?Y" if "name \<in> set command_names" for name
    using cmd [OF that] free(1) by (intro re_sub_Cons_id) (auto intro!: command_match_first)
  then show "unwrap_commands (92 # ?Y) = 92 # ?Y"
    by (simp add: unwrap_commands_def command_names_def)
  show "remove_braces (92 # ?Y) = 92 # ?Y"
    using free(2) by (intro remove_braces_id) simp
  have "numcharref_match1 (92 # ?Y) = None"
    using tagne free(3) by (cases tag) (auto simp: numcharref_match1_def amp_hash_match_def)
  then have "re_sub_err numcharref_match1 (92 # ?Y) = Inr (92 # ?Y)"
    using free(1,3) by (intro re_sub_err_Cons_id) (auto intro!: numcharref_match1_first)
  moreover have "re_sub_err numcharref_match2 (92 # ?Y) = Inr (92 # ?Y)"
    using free(4) by (intro re_sub_err_id) (auto intro!: numcharref_match2_first)
  ultimately show "resolve_numcharrefs (92 # ?Y) = Inr (92 # ?Y)"
    by (simp add: resolve_numcharrefs_def)
  have strip: "str_replace ([92] @ cmd @ [32]) [] (92 # ?Y) = 92 # ?Y"
    if "cmd \<in> set stripped_commands" for cmd
  proof -
    have "strip_prefix ([92] @ cmd @ [32]) (92 # ?Y) = None"
    proof (cases "strip_prefix ([92] @ cmd @ [32]) (92 # ?Y)")
      case None
      then show ?thesis .
    next
      case (Some r')
      then have "cmd @ (32 # r') = tag @ w # (ws' @ r)" by (simp add: strip_prefix_Some wsd)
      from same_tag [OF this w] that stripped_commands_no_space tagsp
      have "cmd = tag" by (auto simp: is_space_def)
      with that tag language_tags_not_stripped show ?thesis by auto
    qed
    then show ?thesis
      unfolding str_replace_def using free(1)
      by (intro re_sub_Cons_id) auto
  qed
  then show "strip_commands (92 # ?Y) = 92 # ?Y"
    by (simp add: strip_commands_def stripped_commands_def)
qed

lemma recode_tagged_text:
  assumes "(tag, code) \<in> set language_tags" and "ws \<noteq> []" and "list_all is_space ws"
    and "r = [] \<or> \<not> is_space (hd r)"
  shows "recode_language_tags (92 # tag @ ws @ r)
           = (case recode_language_tags r of Inl e \<Rightarrow> Inl e | Inr r' \<Rightarrow> Inr ([91] @ code @ [93, 32] @ r'))"
proof -
  from assms(1) have tag: "tag \<in> set (map fst language_tags)" by force
  have "tag_match (map fst language_tags) (tag @ ws @ r) = Some (tag, length tag + length ws)"
    using tag language_tags_no_space assms(2-4) by (intro tag_match_tag) auto
  moreover have "map_of language_tags tag = Some code"
    using assms(1) language_tags_distinct by simp
  ultimately have "language_tag_match (92 # tag @ ws @ r)
      = Some (Inr ([91] @ code @ [93, 32]), 1 + (length tag + length ws))"
    by (simp add: language_tag_match_def language_tag_repl_def)
  then show ?thesis by (simp add: recode_language_tags_def split: sum.splits)
qed

lemma tag_match_boundary:
  "\<forall>t \<in> set tags. 92 \<notin> set t \<Longrightarrow> tag_match tags (y @ 92 # q) = tag_match tags y"
proof (induction tags)
  case Nil
  then show ?case by simp
next
  case (Cons t tags)
  have "\<not> is_space 92" by (simp add: is_space_def)
  then have "takeWhile is_space (r @ 92 # q) = takeWhile is_space r" for r
    by (rule takeWhile_tail)
  with Cons show ?case
    by (cases "strip_prefix t y") (simp_all add: strip_prefix_boundary Let_def)
qed

lemma tag_match_length: "tag_match tags y = Some (tag, n) \<Longrightarrow> n \<le> length y"
proof (induction tags)
  case Nil
  then show ?case by simp
next
  case (Cons t tags)
  show ?case
  proof (cases "strip_prefix t y")
    case None
    with Cons show ?thesis by simp
  next
    case (Some r')
    then have "y = t @ r'" by (simp add: strip_prefix_Some)
    moreover have "length (takeWhile is_space r') \<le> length r'" by (rule length_takeWhile_le)
    ultimately show ?thesis using Cons Some by (auto simp: Let_def split: if_splits)
  qed
qed

lemma language_tags_no_backslash: "\<forall>t \<in> set (map fst language_tags). 92 \<notin> set t"
  using language_tags_letters by fastforce

lemma language_tag_match_boundary:
  "x \<noteq> [] \<Longrightarrow> language_tag_match (x @ 92 # q) = language_tag_match x"
  using tag_match_boundary [OF language_tags_no_backslash]
  by (cases x) (simp_all add: language_tag_match_def)

lemma language_tag_match_length: "language_tag_match x = Some (rep, n) \<Longrightarrow> n \<le> length x"
  by (auto simp: language_tag_match_def strip_prefix_Some split: option.splits
      dest: tag_match_length)

lemma recode_language_tags_boundary:
  "recode_language_tags (p @ 92 # q)
     = (case recode_language_tags p of
          Inl e \<Rightarrow> Inl e
        | Inr p' \<Rightarrow>
            (case recode_language_tags (92 # q) of Inl e \<Rightarrow> Inl e | Inr q' \<Rightarrow> Inr (p' @ q')))"
  unfolding recode_language_tags_def
  by (rule re_sub_err_boundary [where ok = "\<lambda>c. True"])
     (simp_all add: language_tag_match_boundary language_tag_match_length)

lemma resolve_numcharrefs_append:
  assumes "92 \<notin> set p" and "38 \<notin> set p" and "63 \<notin> set p"
  shows "resolve_numcharrefs (p @ s)
           = (case resolve_numcharrefs s of Inl e \<Rightarrow> Inl e | Inr t \<Rightarrow> Inr (p @ t))"
proof -
  have 1: "re_sub_err numcharref_match1 (p @ t)
      = (case re_sub_err numcharref_match1 t of Inl e \<Rightarrow> Inl e | Inr u \<Rightarrow> Inr (p @ u))" for t
    using assms by (intro re_sub_err_append) (auto intro!: numcharref_match1_first)
  have 2: "re_sub_err numcharref_match2 (p @ t)
      = (case re_sub_err numcharref_match2 t of Inl e \<Rightarrow> Inl e | Inr u \<Rightarrow> Inr (p @ u))" for t
    using assms by (intro re_sub_err_append) (auto intro!: numcharref_match2_first)
  show ?thesis by (simp add: resolve_numcharrefs_def 1 2 split: sum.splits)
qed

text \<open>The same behind a plain text.\<close>

lemma tagged_text_behind:
  assumes tag: "tag \<in> set (map fst language_tags)"
    and ws: "ws \<noteq> []" "list_all is_space ws"
    and p: "list_all plain p" and r: "list_all plain r"
  shows "unwrap_commands (p @ 92 # tag @ ws @ r) = p @ 92 # tag @ ws @ r"
    and "remove_braces (p @ 92 # tag @ ws @ r) = p @ 92 # tag @ ws @ r"
    and "resolve_numcharrefs (p @ 92 # tag @ ws @ r) = Inr (p @ 92 # tag @ ws @ r)"
    and "strip_commands (p @ 92 # tag @ ws @ r) = p @ 92 # tag @ ws @ r"
proof -
  note x = tagged_text [OF tag ws r]
  note pf = plain_set [OF p]
  show "unwrap_commands (p @ 92 # tag @ ws @ r) = p @ 92 # tag @ ws @ r"
    using pf x(1) by (simp add: unwrap_commands_append)
  from tag language_tags_letters have "\<forall>c \<in> set tag. 97 \<le> c \<and> c \<le> 122" by auto
  then have "123 \<notin> set (p @ 92 # tag @ ws @ r)"
    using pf ws(2) plain_set [OF r] by (auto simp: list_all_iff is_space_def)
  then show "remove_braces (p @ 92 # tag @ ws @ r) = p @ 92 # tag @ ws @ r"
    by (rule remove_braces_id)
  show "resolve_numcharrefs (p @ 92 # tag @ ws @ r) = Inr (p @ 92 # tag @ ws @ r)"
    using pf x(3) by (simp add: resolve_numcharrefs_append)
  show "strip_commands (p @ 92 # tag @ ws @ r) = p @ 92 # tag @ ws @ r"
    using pf x(4) by (simp add: strip_commands_append)
qed

text \<open>
  Claim C8. Wherever a backslash, a key of \<open>language_tags\<close> (matched case-sensitively and
  in full, since whitespace must follow) and a run of whitespace stand in a text, they are
  rewritten to the code of the tag in square brackets and one space; the text in front and
  the text behind are recoded on their own. Where these two are plain and nothing is a
  combining mark, this is what the whole of \<open>ulatex_postprocess\<close> does, up to its final
  normalisation; so \<^verbatim>\<open>\latin foo\<close> becomes \<^verbatim>\<open>[lat] foo\<close>.
\<close>

theorem language_tag_rewritten:
  assumes "(tag, code) \<in> set language_tags" and "ws \<noteq> []" and "list_all is_space ws"
    and "r = [] \<or> \<not> is_space (hd r)"
  shows "(\<exists>p' r'. recode_language_tags p = Inr p' \<and> recode_language_tags r = Inr r'
            \<and> recode_language_tags (p @ 92 # tag @ ws @ r)
                = Inr (p' @ [91] @ code @ [93, 32] @ r'))
         \<and> (list_all plain p \<and> list_all plain r \<and> no_marks name (p @ 92 # tag @ ws @ r) \<longrightarrow>
              ulatex_postprocess name nfc (Unicode (p @ 92 # tag @ ws @ r))
                = Inr (nfc (p @ [91] @ code @ [93, 32] @ r)))"
proof (intro conjI impI)
  obtain p' where p': "recode_language_tags p = Inr p'"
    using recode_language_tags_total by blast
  obtain r' where r': "recode_language_tags r = Inr r'"
    using recode_language_tags_total by blast
  from recode_tagged_text [OF assms] r'
  have "recode_language_tags (92 # tag @ ws @ r) = Inr ([91] @ code @ [93, 32] @ r')" by simp
  with p' have "recode_language_tags (p @ 92 # tag @ ws @ r)
      = Inr (p' @ [91] @ code @ [93, 32] @ r')"
    by (simp add: recode_language_tags_boundary)
  with p' r' show "\<exists>p' r'. recode_language_tags p = Inr p' \<and> recode_language_tags r = Inr r'
      \<and> recode_language_tags (p @ 92 # tag @ ws @ r) = Inr (p' @ [91] @ code @ [93, 32] @ r')"
    by blast
next
  assume a: "list_all plain p \<and> list_all plain r \<and> no_marks name (p @ 92 # tag @ ws @ r)"
  from assms(1) have tag: "tag \<in> set (map fst language_tags)" by force
  have "recode_language_tags p = Inr p" "recode_language_tags r = Inr r"
    using a plain_set by (blast intro: recode_language_tags_id)+
  moreover from recode_tagged_text [OF assms] calculation(2)
  have "recode_language_tags (92 # tag @ ws @ r) = Inr ([91] @ code @ [93, 32] @ r)" by simp
  ultimately have "recode_language_tags (p @ 92 # tag @ ws @ r)
      = Inr (p @ [91] @ code @ [93, 32] @ r)"
    by (simp add: recode_language_tags_boundary)
  then show "ulatex_postprocess name nfc (Unicode (p @ 92 # tag @ ws @ r))
      = Inr (nfc (p @ [91] @ code @ [93, 32] @ r))"
    using a tagged_text_behind [OF tag assms(2,3), of p r]
      reorder_combining_id [of name "p @ 92 # tag @ ws @ r"]
    by (simp add: ulatex_postprocess_def)
qed

theorem language_tag_rewritten_witness:
  "recode_language_tags (ustr ''see '' @ 92 # ustr ''latin foo'') = Inr (ustr ''see [lat] foo'')
   \<and> ulatex_postprocess names_fragment nfc_fragment (Unicode (ustr ''see '' @ 92 # ustr ''latin foo''))
       = Inr (ustr ''see [lat] foo'')"
proof -
  have 1: "(ustr ''latin'', ustr ''lat'') \<in> set language_tags"
    by (simp add: language_tags_def)
  have 2: "[32] \<noteq> []" "list_all is_space [32]" by (simp_all add: is_space_def)
  have 3: "ustr ''foo'' = [] \<or> \<not> is_space (hd (ustr ''foo''))"
    by (simp add: ustr_def is_space_def)
  have 4: "list_all plain (ustr ''see '')" "list_all plain (ustr ''foo'')"
    by (simp_all add: ustr_def plain_def)
  have 5: "no_marks names_fragment (ustr ''see '' @ 92 # ustr ''latin'' @ [32] @ ustr ''foo'')"
    by (simp add: no_marks_def ustr_def names_fragment_simps)
  have 6: "recode_language_tags (ustr ''foo'') = Inr (ustr ''foo'')"
    "recode_language_tags (ustr ''see '') = Inr (ustr ''see '')"
    by (simp_all add: recode_language_tags_def ustr_def language_tag_match_def)
  have 7: "nfc_fragment (ustr ''see '' @ [91] @ ustr ''lat'' @ [93, 32] @ ustr ''foo'')
      = ustr ''see [lat] foo''"
    by (simp add: ustr_def compositions_def)
  from language_tag_rewritten [OF 1 2 3, of "ustr ''see ''" names_fragment nfc_fragment] 4 5 6 7
  show ?thesis by (simp add: ustr_def)
qed

text \<open>Every tag of a text is rewritten, not the first one only.\<close>

lemma language_tags_all_rewritten:
  "recode_language_tags (92 # ustr ''fr a '' @ 92 # ustr ''zh  b'') = Inr (ustr ''[fra] a [zho] b'')"
  by (simp add: recode_language_tags_def language_tag_match_def language_tag_repl_def
      language_tags_def ustr_def is_space_def)

text \<open>
  The order of the alternatives in \<open>language_tag_pattern\<close> is the order in which the
  dictionary gives its keys, which is not the order of the source text. It does not
  matter: the tags hold no whitespace, so at most one of them is followed by whitespace
  at a given place.
\<close>

lemma tag_match_char:
  assumes "\<forall>t \<in> set tags. \<forall>c \<in> set t. \<not> is_space c"
  shows "tag_match tags r = Some (tag, n) \<longleftrightarrow>
           tag \<in> set tags \<and> (\<exists>r'. r = tag @ r' \<and> takeWhile is_space r' \<noteq> []
             \<and> n = length tag + length (takeWhile is_space r'))"
  using assms
proof (induction tags)
  case Nil
  then show ?case by simp
next
  case (Cons t' tags)
  then have IH: "tag_match tags r = Some (tag, n) \<longleftrightarrow>
           tag \<in> set tags \<and> (\<exists>r'. r = tag @ r' \<and> takeWhile is_space r' \<noteq> []
             \<and> n = length tag + length (takeWhile is_space r'))" by simp
  show ?case
  proof (cases "strip_prefix t' r")
    case None
    then have "\<not> (t' = tag \<and> (\<exists>r'. r = tag @ r'))" by (auto simp: strip_prefix_None)
    with None IH show ?thesis by auto
  next
    case (Some r1)
    then have r: "r = t' @ r1" by (simp add: strip_prefix_Some)
    show ?thesis
    proof (cases "takeWhile is_space r1 = []")
      case True
      with r have "\<not> (t' = tag \<and> (\<exists>r'. r = tag @ r' \<and> takeWhile is_space r' \<noteq> []))" by auto
      with Some True IH show ?thesis by auto
    next
      case False
      then have r1: "r1 \<noteq> []" "is_space (hd r1)" by (auto simp: takeWhile_eq_Nil_iff)
      have uniq: "tag = t' \<and> r' = r1"
        if "tag \<in> set (t' # tags)" and "r = tag @ r'" and "takeWhile is_space r' \<noteq> []" for tag r'
      proof -
        from that(3) obtain w r2 where r': "r' = w # r2" and w: "is_space w"
          by (cases r') (auto split: if_splits)
        from r that(2) r' have "t' @ r1 = tag @ w # r2" by simp
        moreover have "\<forall>c \<in> set t'. \<not> is_space c" using Cons.prems by simp
        moreover have "\<forall>c \<in> set tag. \<not> is_space c" using Cons.prems that(1) by blast
        ultimately have "t' = tag \<and> r1 = w # r2" using w r1 by (intro same_tag)
        with r' show ?thesis by simp
      qed
      show ?thesis
      proof
        assume "tag_match (t' # tags) r = Some (tag, n)"
        with Some False have "tag = t'" "n = length t' + length (takeWhile is_space r1)"
          by (auto simp: Let_def)
        with r False show "tag \<in> set (t' # tags) \<and> (\<exists>r'. r = tag @ r'
            \<and> takeWhile is_space r' \<noteq> [] \<and> n = length tag + length (takeWhile is_space r'))"
          by auto
      next
        assume "tag \<in> set (t' # tags) \<and> (\<exists>r'. r = tag @ r'
            \<and> takeWhile is_space r' \<noteq> [] \<and> n = length tag + length (takeWhile is_space r'))"
        then obtain r' where "tag \<in> set (t' # tags)" "r = tag @ r'"
          "takeWhile is_space r' \<noteq> []" "n = length tag + length (takeWhile is_space r')" by blast
        with uniq [of tag r'] Some False show "tag_match (t' # tags) r = Some (tag, n)"
          by (simp add: Let_def)
      qed
    qed
  qed
qed

lemma tag_match_any_order:
  assumes "set tags' = set (map fst language_tags)"
  shows "tag_match tags' r = tag_match (map fst language_tags) r"
proof -
  have sp: "\<forall>t \<in> set tags'. \<forall>c \<in> set t. \<not> is_space c"
    using assms language_tags_no_space by auto
  have sp': "\<forall>t \<in> set (map fst language_tags). \<forall>c \<in> set t. \<not> is_space c"
    using language_tags_no_space by auto
  have "tag_match tags' r = Some (tag, n) \<longleftrightarrow> tag_match (map fst language_tags) r = Some (tag, n)"
    for tag n
    unfolding tag_match_char [OF sp] tag_match_char [OF sp'] assms ..
  then show ?thesis
    by (cases "tag_match tags' r"; cases "tag_match (map fst language_tags) r") auto
qed

text \<open>The match is case-sensitive: \<^verbatim>\<open>\Latin foo\<close> is left as it is.\<close>

lemma language_tag_case_sensitive:
  "recode_language_tags (92 # ustr ''Latin foo'') = Inr (92 # ustr ''Latin foo'')"
  by (simp add: recode_language_tags_def language_tag_match_def language_tags_def ustr_def
      is_space_def)

section \<open>Properties of the numeric character references\<close>

lemma digits_then_run:
  assumes "ds \<noteq> []" and "list_all is_digit ds" and "\<not> is_digit close"
  shows "digits_then close (ds @ close # q) = Some (ds, length ds + 1)"
proof -
  have "takeWhile is_digit (ds @ close # q) = ds"
    using assms(2,3) by (simp add: takeWhile_tail list_all_iff)
  then show ?thesis using assms(1) by (cases ds) (simp_all add: digits_then_def)
qed

lemma amp_hash_match_ref:
  assumes "ds \<noteq> []" and "list_all is_digit ds"
  shows "amp_hash_match ([38, 35] @ ds @ 59 # q) = Some (ds, 2 + (length ds + 1))"
  using digits_then_run [OF assms, of 59 q] by (simp add: amp_hash_match_def is_digit_def)

lemma numcharref_match1_ref:
  assumes "ds \<noteq> []" and "list_all is_digit ds"
  shows "numcharref_match1 ([38, 35] @ ds @ 59 # q) = Some (numcharref_repl ds, length ds + 3)"
    and "numcharref_match1 ([92, 38, 35] @ ds @ 59 # q) = Some (numcharref_repl ds, length ds + 4)"
  using amp_hash_match_ref [OF assms, of q] by (simp_all add: numcharref_match1_def)

lemma numcharref_match2_ref:
  assumes "ds \<noteq> []" and "list_all is_digit ds"
  shows "numcharref_match2 ([63, 91, 92, 117] @ ds @ 93 # q) = Some (numcharref_repl ds, length ds + 5)"
proof -
  from assms obtain d ds' where ds: "ds = d # ds'" and d: "is_digit d" by (cases ds) auto
  then have "takeWhile is_space (ds @ 93 # q) = []" by (simp add: is_space_def is_digit_def)
  then show ?thesis
    using digits_then_run [OF assms, of 93 q]
    by (simp add: numcharref_match2_def is_digit_def)
qed

lemma numcharref_match2_no_backslash: "92 \<notin> set q \<Longrightarrow> numcharref_match2 (c # q) = None"
  by (auto simp: numcharref_match2_def strip_prefix_Some split: option.splits)

lemma numcharref_repl_Inr: "int_of_dec ds < 0x110000 \<Longrightarrow> numcharref_repl ds = Inr [int_of_dec ds]"
  by (simp add: numcharref_repl_def unichr_def)

lemma re_sub_err_match:
  assumes "m (x @ q) = Some (Inr t, n)" and "n = length x" and "x \<noteq> []"
  shows "re_sub_err m (x @ q) = (case re_sub_err m q of Inl e \<Rightarrow> Inl e | Inr u \<Rightarrow> Inr (t @ u))"
proof -
  from assms(3) obtain c cs where x: "x = c # cs" by (cases x) auto
  have "drop n ((c # cs) @ q) = q" using assms(2) x by simp
  with assms x show ?thesis by simp
qed

text \<open>The second pattern finds nothing in a resolved character between plain texts.\<close>

lemma pattern2_resolved:
  assumes "list_all plain p" and "list_all plain q"
  shows "re_sub_err numcharref_match2 (p @ c # q) = Inr (p @ c # q)"
proof -
  have q: "92 \<notin> set q" "63 \<notin> set q" using plain_set [OF assms(2)] by simp_all
  have "re_sub_err numcharref_match2 q = Inr q"
    using q(2) by (intro re_sub_err_id) (auto intro!: numcharref_match2_first)
  then have "re_sub_err numcharref_match2 (c # q) = Inr (c # q)"
    using numcharref_match2_no_backslash [OF q(1), of c] by simp
  moreover have "63 \<notin> set p" using plain_set [OF assms(1)] by simp
  then have "re_sub_err numcharref_match2 (p @ c # q)
      = (case re_sub_err numcharref_match2 (c # q) of Inl e \<Rightarrow> Inl e | Inr t \<Rightarrow> Inr (p @ t))"
    by (intro re_sub_err_append) (auto intro!: numcharref_match2_first)
  ultimately show ?thesis by simp
qed

lemma resolve_numcharrefs_ref:
  assumes ds: "ds \<noteq> []" "list_all is_digit ds" and dec: "int_of_dec ds < 0x110000"
    and p: "list_all plain p" and q: "list_all plain q"
  shows "resolve_numcharrefs (p @ [38, 35] @ ds @ [59] @ q) = Inr (p @ [int_of_dec ds] @ q)"
    and "resolve_numcharrefs (p @ [92, 38, 35] @ ds @ [59] @ q) = Inr (p @ [int_of_dec ds] @ q)"
    and "resolve_numcharrefs (p @ [63, 91, 92, 117] @ ds @ [93] @ q) = Inr (p @ [int_of_dec ds] @ q)"
proof -
  have pf: "92 \<notin> set p" "38 \<notin> set p" "63 \<notin> set p" using plain_set [OF p] by simp_all
  have qf: "92 \<notin> set q" "38 \<notin> set q" "63 \<notin> set q" using plain_set [OF q] by simp_all
  have dsf: "92 \<notin> set ds" "38 \<notin> set ds"
    using ds(2) by (auto simp: list_all_iff is_digit_def)
  have q1: "re_sub_err numcharref_match1 q = Inr q"
    using qf by (intro re_sub_err_id) (auto intro!: numcharref_match1_first)
  have q2: "re_sub_err numcharref_match2 q = Inr q"
    using qf by (intro re_sub_err_id) (auto intro!: numcharref_match2_first)
  have p1: "re_sub_err numcharref_match1 (p @ t)
      = (case re_sub_err numcharref_match1 t of Inl e \<Rightarrow> Inl e | Inr u \<Rightarrow> Inr (p @ u))" for t
    using pf by (intro re_sub_err_append) (auto intro!: numcharref_match1_first)
  have p2: "re_sub_err numcharref_match2 (p @ t)
      = (case re_sub_err numcharref_match2 t of Inl e \<Rightarrow> Inl e | Inr u \<Rightarrow> Inr (p @ u))" for t
    using pf by (intro re_sub_err_append) (auto intro!: numcharref_match2_first)
  note repl = numcharref_repl_Inr [OF dec]
  have "re_sub_err numcharref_match1 (([38, 35] @ ds @ [59]) @ q) = Inr ([int_of_dec ds] @ q)"
    using numcharref_match1_ref(1) [OF ds, of q] q1 repl
    by (subst re_sub_err_match [where t = "[int_of_dec ds]" and n = "length ds + 3"]) simp_all
  then have "re_sub_err numcharref_match1 ([38, 35] @ ds @ 59 # q) = Inr ([int_of_dec ds] @ q)"
    by simp
  then have "re_sub_err numcharref_match1 (p @ [38, 35] @ ds @ [59] @ q) = Inr (p @ [int_of_dec ds] @ q)"
    using p1 [of "[38, 35] @ ds @ 59 # q"] by simp
  then show "resolve_numcharrefs (p @ [38, 35] @ ds @ [59] @ q) = Inr (p @ [int_of_dec ds] @ q)"
    using pattern2_resolved [OF p q, of "int_of_dec ds"] by (simp add: resolve_numcharrefs_def)
  have "re_sub_err numcharref_match1 (([92, 38, 35] @ ds @ [59]) @ q) = Inr ([int_of_dec ds] @ q)"
    using numcharref_match1_ref(2) [OF ds, of q] q1 repl
    by (subst re_sub_err_match [where t = "[int_of_dec ds]" and n = "length ds + 4"]) simp_all
  then have "re_sub_err numcharref_match1 ([92, 38, 35] @ ds @ 59 # q) = Inr ([int_of_dec ds] @ q)"
    by simp
  then have "re_sub_err numcharref_match1 (p @ [92, 38, 35] @ ds @ [59] @ q) = Inr (p @ [int_of_dec ds] @ q)"
    using p1 [of "[92, 38, 35] @ ds @ 59 # q"] by simp
  then show "resolve_numcharrefs (p @ [92, 38, 35] @ ds @ [59] @ q) = Inr (p @ [int_of_dec ds] @ q)"
    using pattern2_resolved [OF p q, of "int_of_dec ds"] by (simp add: resolve_numcharrefs_def)
  have "numcharref_match1 (92 # 117 # ds @ 93 # q) = None"
    by (simp add: numcharref_match1_def amp_hash_match_def)
  moreover have "\<forall>c \<in> set (117 # ds @ 93 # q). \<forall>cs. numcharref_match1 (c # cs) = None"
    using dsf qf by (auto intro!: numcharref_match1_first)
  ultimately have "re_sub_err numcharref_match1 (92 # 117 # ds @ 93 # q) = Inr (92 # 117 # ds @ 93 # q)"
    by (rule re_sub_err_Cons_id)
  then have "re_sub_err numcharref_match1 ([63, 91, 92, 117] @ ds @ 93 # q)
      = Inr ([63, 91, 92, 117] @ ds @ 93 # q)"
    by (simp add: numcharref_match1_first)
  then have "re_sub_err numcharref_match1 (p @ [63, 91, 92, 117] @ ds @ [93] @ q)
      = Inr (p @ [63, 91, 92, 117] @ ds @ 93 # q)"
    using p1 [of "[63, 91, 92, 117] @ ds @ 93 # q"] by simp
  moreover have "re_sub_err numcharref_match2 (([63, 91, 92, 117] @ ds @ [93]) @ q) = Inr ([int_of_dec ds] @ q)"
    using numcharref_match2_ref [OF ds, of q] q2 repl
    by (subst re_sub_err_match [where t = "[int_of_dec ds]" and n = "length ds + 5"]) simp_all
  then have "re_sub_err numcharref_match2 ([63, 91, 92, 117] @ ds @ 93 # q) = Inr ([int_of_dec ds] @ q)"
    by simp
  then have "re_sub_err numcharref_match2 (p @ [63, 91, 92, 117] @ ds @ 93 # q)
      = Inr (p @ [int_of_dec ds] @ q)"
    using p2 [of "[63, 91, 92, 117] @ ds @ 93 # q"] by simp
  ultimately show "resolve_numcharrefs (p @ [63, 91, 92, 117] @ ds @ [93] @ q) = Inr (p @ [int_of_dec ds] @ q)"
    by (simp add: resolve_numcharrefs_def)
qed

lemma names_fragment_ascii: "\<forall>c<128. \<not> is_combining names_fragment c"
proof (intro allI impI)
  fix c :: nat
  assume "c < 128"
  show "\<not> is_combining names_fragment c"
  proof (cases "map_of other_names c")
    case None
    then show ?thesis by (simp add: is_combining_def names_fragment_def startswith_def)
  next
    case (Some n)
    then have "(c, n) \<in> set other_names" by (rule map_of_SomeD)
    with \<open>c < 128\<close> have "\<not> startswith n ''COMBINING''"
      by (auto simp: other_names_def startswith_def)
    with Some show ?thesis by (simp add: is_combining_def names_fragment_def startswith_def)
  qed
qed

lemma unwrap_commands_Cons_id:
  assumes "\<forall>name \<in> set command_names. command_match name (92 # s) = None" and "92 \<notin> set s"
  shows "unwrap_commands (92 # s) = 92 # s"
proof -
  have "re_sub (command_match name) (92 # s) = 92 # s" if "name \<in> set command_names" for name
    using assms that by (intro re_sub_Cons_id) (auto intro!: command_match_first)
  then show ?thesis by (simp add: unwrap_commands_def command_names_def)
qed

lemma no_marks_append: "no_marks name (s @ t) \<longleftrightarrow> no_marks name s \<and> no_marks name t"
  by (simp add: no_marks_def)

lemma no_marks_ascii:
  "\<forall>c<128. \<not> is_combining name c \<Longrightarrow> list_all (\<lambda>c. c < 128) s \<Longrightarrow> no_marks name s"
  by (simp add: no_marks_def list_all_iff)

lemma digits_ascii: "list_all is_digit ds \<Longrightarrow> list_all (\<lambda>c. c < 128) ds"
  by (auto simp: list_all_iff is_digit_def)


text \<open>The steps in front of the references leave the three spellings as they are.\<close>

lemma postprocess_head:
  assumes ds: "ds \<noteq> []" "list_all is_digit ds"
    and p: "list_all plain p" and q: "list_all plain q"
    and marks: "no_marks name (p @ q)" "\<forall>c<128. \<not> is_combining name c"
    and ref: "ref \<in> {[38, 35] @ ds @ [59], [92, 38, 35] @ ds @ [59],
                     [63, 91, 92, 117] @ ds @ [93]}"
  shows "reorder_combining name (remove_braces (unwrap_commands (p @ ref @ q))) = p @ ref @ q"
proof -
  have pf: "92 \<notin> set p" "123 \<notin> set p" using plain_set [OF p] by simp_all
  have qf: "92 \<notin> set q" "123 \<notin> set q" using plain_set [OF q] by simp_all
  from ds obtain d ds' where dsd: "ds = d # ds'" and d: "is_digit d" by (cases ds) auto
  have dsf: "92 \<notin> set ds" "123 \<notin> set ds"
    using ds(2) by (auto simp: list_all_iff is_digit_def)
  have "list_all (\<lambda>c. c < 128) ref"
    using ref digits_ascii [OF ds(2)] by auto
  then have "no_marks name ref" using marks(2) by (intro no_marks_ascii)
  with marks(1) have nm: "no_marks name (p @ ref @ q)" by (simp add: no_marks_append)
  have "123 \<notin> set ref" using ref dsf by auto
  then have br: "remove_braces (p @ ref @ q) = p @ ref @ q"
    using pf qf by (intro remove_braces_id) simp
  have "unwrap_commands (ref @ q) = ref @ q"
  proof -
    from ref consider "ref = [38, 35] @ ds @ [59]" | "ref = [92, 38, 35] @ ds @ [59]"
      | "ref = [63, 91, 92, 117] @ ds @ [93]" by blast
    then show ?thesis
    proof cases
    case 1
    then show ?thesis using dsf qf by (intro unwrap_commands_id) simp
  next
    case r: 2
    have "unwrap_commands (92 # [38, 35] @ ds @ [59] @ q) = 92 # [38, 35] @ ds @ [59] @ q"
      using dsf qf
      by (intro unwrap_commands_Cons_id)
         (simp_all add: command_names_def command_match_def ustr_def)
    with r show ?thesis by simp
  next
    case r: 3
    have "unwrap_commands (92 # 117 # ds @ [93] @ q) = 92 # 117 # ds @ [93] @ q"
      using dsf qf d
      by (intro unwrap_commands_Cons_id)
         (simp_all add: command_names_def command_match_def ustr_def dsd is_digit_def)
    then have "unwrap_commands ([63, 91] @ 92 # 117 # ds @ [93] @ q) = [63, 91] @ 92 # 117 # ds @ [93] @ q"
      by (subst unwrap_commands_append) simp_all
    with r show ?thesis by simp
  qed
  qed
  then have "unwrap_commands (p @ ref @ q) = p @ ref @ q"
    using pf by (simp add: unwrap_commands_append)
  with br nm show ?thesis by (simp add: reorder_combining_id)
qed






















section \<open>The order of the steps\<close>

lemma re_sub_literal_id:
  "92 \<notin> set q \<Longrightarrow>
     re_sub (\<lambda>t. case strip_prefix (92 # old) t of None \<Rightarrow> None | Some x \<Rightarrow> Some (new, n)) q = q"
  by (rule re_sub_id) auto

lemma strip_commands_command:
  assumes "cmd \<in> set stripped_commands" and "92 \<notin> set q"
  shows "strip_commands (92 # cmd @ 32 # q) = q"
proof -
  note [simp] = strip_commands_def str_replace_def ustr_def re_sub_literal_id [OF assms(2)]
  from assms(1) consider "cmd = ustr ''relax''" | "cmd = ustr ''it''" | "cmd = ustr ''em''"
    | "cmd = ustr ''textsc''" | "cmd = ustr ''cite''" | "cmd = ustr ''citet''"
    by (auto simp: stripped_commands_def)
  then show ?thesis
    by cases (simp_all add: stripped_commands_def)
qed

lemma stripped_commands_plain: "\<forall>cmd \<in> set stripped_commands. list_all plain cmd \<and> list_all (\<lambda>c. c < 128) cmd"
  by (simp add: stripped_commands_def ustr_def plain_def)

text \<open>
  Claim C5 (as amended). \<open>ulatex_postprocess\<close> unwraps the commands with an argument in
  braces, removes braces, reorders the combining marks, resolves the numeric character
  references, and only then strips \<^verbatim>\<open>\relax\<close>, \<^verbatim>\<open>\it\<close>, \<^verbatim>\<open>\em\<close>, \<^verbatim>\<open>\textsc\<close>,
  \<^verbatim>\<open>\cite\<close> and \<^verbatim>\<open>\citet\<close>, before it rewrites the language tags and normalises. So
  a command whose backslash is written as the reference \<^verbatim>\<open>&#92;\<close> is stripped like one
  written out: between plain texts it leaves nothing behind.
\<close>

theorem strip_commands_after_numcharrefs:
  assumes "cmd \<in> set stripped_commands" and "list_all plain p" and "list_all plain q"
    and "no_marks name (p @ q)" and "\<forall>c<128. \<not> is_combining name c"
  shows "ulatex_postprocess name nfc (Unicode s)
           = (case resolve_numcharrefs
                     (reorder_combining name (remove_braces (unwrap_commands s))) of
                Inl e \<Rightarrow> Inl e
              | Inr s1 \<Rightarrow>
                  (case recode_language_tags (strip_commands s1) of
                     Inl e \<Rightarrow> Inl e
                   | Inr s2 \<Rightarrow> Inr (nfc s2)))
         \<and> ulatex_postprocess name nfc (Unicode (p @ [38, 35, 57, 50, 59] @ cmd @ [32] @ q))
           = Inr (nfc (p @ q))"
proof
  show "ulatex_postprocess name nfc (Unicode s)
      = (case resolve_numcharrefs (reorder_combining name (remove_braces (unwrap_commands s))) of
           Inl e \<Rightarrow> Inl e
         | Inr s1 \<Rightarrow>
             (case recode_language_tags (strip_commands s1) of
                Inl e \<Rightarrow> Inl e
              | Inr s2 \<Rightarrow> Inr (nfc s2)))"
    by (simp add: ulatex_postprocess_def)
next
  let ?q = "cmd @ [32] @ q"
  let ?s = "p @ [38, 35] @ [57, 50] @ [59] @ ?q"
  from assms(1) stripped_commands_plain
  have cmd: "list_all plain cmd" "list_all (\<lambda>c. c < 128) cmd" by auto
  have q': "list_all plain ?q" using cmd(1) assms(3) by (simp add: plain_def)
  have "no_marks name cmd" using assms(5) cmd(2) by (rule no_marks_ascii)
  moreover have "no_marks name [32]" using assms(5) by (simp add: no_marks_def)
  ultimately have nm: "no_marks name (p @ ?q)" using assms(4) by (simp add: no_marks_def)
  have ds: "[57, 50] \<noteq> ([] :: nat list)" "list_all is_digit [57, 50]"
    by (simp_all add: is_digit_def)
  have dec: "int_of_dec [57, 50] = 92" by (simp add: int_of_dec_def)
  have "reorder_combining name (remove_braces (unwrap_commands ?s)) = ?s"
    using postprocess_head [OF ds assms(2) q' nm assms(5), of "[38, 35] @ [57, 50] @ [59]"]
    by simp
  moreover have "resolve_numcharrefs ?s = Inr (p @ [92] @ ?q)"
    using resolve_numcharrefs_ref(1) [OF ds _ assms(2) q'] dec by simp
  moreover have "strip_commands (p @ [92] @ ?q) = p @ q"
    using plain_set [OF assms(2)] plain_set [OF assms(3)]
      strip_commands_command [OF assms(1), of q]
    by (simp add: strip_commands_append)
  moreover have "recode_language_tags (p @ q) = Inr (p @ q)"
    using plain_set [OF assms(2)] plain_set [OF assms(3)]
    by (intro recode_language_tags_id) simp
  ultimately show "ulatex_postprocess name nfc (Unicode (p @ [38, 35, 57, 50, 59] @ cmd @ [32] @ q))
      = Inr (nfc (p @ q))"
    by (simp add: ulatex_postprocess_def)
qed

theorem strip_commands_after_numcharrefs_witness:
  "ulatex_postprocess names_fragment nfc_fragment (Unicode (ustr ''a &#92;em b'')) = Inr (ustr ''a b'')"
proof -
  have 1: "ustr ''em'' \<in> set stripped_commands" by (simp add: stripped_commands_def)
  have 2: "list_all plain (ustr ''a '')" "list_all plain (ustr ''b'')"
    by (simp_all add: ustr_def plain_def)
  have 3: "no_marks names_fragment (ustr ''a '' @ ustr ''b'')"
    by (simp add: no_marks_def ustr_def names_fragment_simps)
  have 4: "nfc_fragment (ustr ''a '' @ ustr ''b'') = ustr ''a b''"
    by (simp add: ustr_def compositions_def)
  from strip_commands_after_numcharrefs [OF 1 2 3 names_fragment_ascii, THEN conjunct2, of nfc_fragment] 4
  show ?thesis by (simp add: ustr_def)
qed

text \<open>
  The claim as stated fails: in the order of the specification the text
  \<^verbatim>\<open>&#92;relax x\<close> would keep the command that the reference brings about; the function
  of the source strips it.
\<close>

theorem stage_order_counterexample:
  "postprocess_in_spec_order names_fragment nfc_fragment (ustr ''&#92;relax x'')
     = Inr (92 # ustr ''relax x'')
   \<and> ulatex_postprocess names_fragment nfc_fragment (Unicode (ustr ''&#92;relax x''))
     = Inr (ustr ''x'')"
  by (simp add: postprocess_in_spec_order_def ulatex_postprocess_def ustr_def
      strip_commands_def stripped_commands_def str_replace_def
      unwrap_commands_def command_names_def command_match_def
      remove_braces_def debracket_match_def
      reorder_combining_def reorder_step_def drain_eq names_fragment_simps
      resolve_numcharrefs_def numcharref_match1_def numcharref_match2_def amp_hash_match_def
      digits_then_def is_digit_def numcharref_repl_def int_of_dec_def unichr_def
      recode_language_tags_def language_tag_match_def language_tags_def is_space_def
      compositions_def)

section \<open>Where the decoding raises\<close>

lemma check_combining_iff: "check_combining name s = Inr () \<longleftrightarrow> no_marks name s"
  by (induction s) (simp_all add: no_marks_def)

lemma check_combining_error: "check_combining name s = Inl e \<Longrightarrow> e = ValueError"
  by (induction s) (simp_all split: if_splits)

lemma check_combining_raises: "check_combining name s = Inl ValueError \<longleftrightarrow> \<not> no_marks name s"
proof (cases "check_combining name s")
  case (Inl e)
  with check_combining_error [OF Inl] check_combining_iff [of name s] show ?thesis by simp
next
  case (Inr u)
  with check_combining_iff [of name s] show ?thesis by simp
qed

text \<open>
  Claim C3 (as amended). \<open>ulatex_preprocess\<close> raises \<^verbatim>\<open>ValueError\<close> exactly when the
  normalised form (NFC) of its decoded input holds a character whose Unicode name starts
  with \<^verbatim>\<open>COMBINING\<close>, and returns the normalised text otherwise; a mark in the input that
  the normalisation composes with the character in front of it does not raise. In
  \<open>ulatex_postprocess\<close>, on a text, no step other than the resolution of the numeric
  character references raises.
\<close>

theorem ulatex_preprocess_raises:
  assumes "codec s = Inr u"
  shows "(ulatex_preprocess codec nfc name s = Inl ValueError \<longleftrightarrow> \<not> no_marks name (nfc u))
         \<and> (no_marks name (nfc u) \<longrightarrow> ulatex_preprocess codec nfc name s = Inr (nfc u))
         \<and> (resolve_numcharrefs (reorder_combining name (remove_braces (unwrap_commands t)))
               = Inr t1 \<longrightarrow>
             (\<exists>r. ulatex_postprocess name nfc (Unicode t) = Inr r))"
proof (intro conjI impI)
  show "ulatex_preprocess codec nfc name s = Inl ValueError \<longleftrightarrow> \<not> no_marks name (nfc u)"
  proof (cases "check_combining name (nfc u)")
    case (Inl e)
    with check_combining_error [OF Inl] check_combining_raises [of name "nfc u"] assms
    show ?thesis by (simp add: ulatex_preprocess_def)
  next
    case (Inr x)
    with check_combining_raises [of name "nfc u"] assms
    show ?thesis by (simp add: ulatex_preprocess_def)
  qed
next
  assume "no_marks name (nfc u)"
  then have "check_combining name (nfc u) = Inr ()" by (simp only: check_combining_iff)
  with assms show "ulatex_preprocess codec nfc name s = Inr (nfc u)"
    by (simp add: ulatex_preprocess_def)
next
  assume a: "resolve_numcharrefs (reorder_combining name (remove_braces (unwrap_commands t))) = Inr t1"
  obtain t2 where "recode_language_tags (strip_commands t1) = Inr t2"
    using recode_language_tags_total by blast
  with a show "\<exists>r. ulatex_postprocess name nfc (Unicode t) = Inr r"
    by (simp add: ulatex_postprocess_def)
qed

theorem ulatex_preprocess_raises_witness:
  "ulatex_preprocess utf8_fragment nfc_fragment names_fragment [0x78, 0xCC, 0x81] = Inl ValueError
   \<and> ulatex_preprocess utf8_fragment nfc_fragment names_fragment [0x78, 0xC3, 0xA9] = Inr [0x78, 0xE9]
   \<and> (\<exists>r. ulatex_postprocess names_fragment nfc_fragment (Unicode (ustr ''&#233;'')) = Inr r)"
proof -
  have 1: "utf8_fragment [0x78, 0xCC, 0x81] = Inr [0x78, 0x301]"
    by (simp add: continuation_def)
  have 2: "\<not> no_marks names_fragment (nfc_fragment [0x78, 0x301])"
    by (simp add: no_marks_def compositions_def names_fragment_simps)
  have 3: "utf8_fragment [0x78, 0xC3, 0xA9] = Inr [0x78, 0xE9]"
    by (simp add: continuation_def)
  have 4: "no_marks names_fragment (nfc_fragment [0x78, 0xE9])"
    "nfc_fragment [0x78, 0xE9] = [0x78, 0xE9]"
    by (simp_all add: no_marks_def compositions_def names_fragment_simps)
  have 5: "resolve_numcharrefs (reorder_combining names_fragment
      (remove_braces (unwrap_commands (ustr ''&#233;'')))) = Inr [233]"
    by (simp add: ustr_def unwrap_commands_def command_names_def command_match_def
        remove_braces_def str_replace_def debracket_match_def
        reorder_combining_def reorder_step_def drain_eq names_fragment_simps
        resolve_numcharrefs_def numcharref_match1_def numcharref_match2_def amp_hash_match_def
        digits_then_def is_digit_def numcharref_repl_def int_of_dec_def unichr_def)
  note inst = ulatex_preprocess_raises [where codec = utf8_fragment and nfc = nfc_fragment
      and name = names_fragment]
  from inst [where s = "[0x78, 0xCC, 0x81]" and u = "[0x78, 0x301]"] 1 2
  have "ulatex_preprocess utf8_fragment nfc_fragment names_fragment [0x78, 0xCC, 0x81] = Inl ValueError"
    by blast
  moreover from inst [where s = "[0x78, 0xC3, 0xA9]" and u = "[0x78, 0xE9]"] 3 4
  have "ulatex_preprocess utf8_fragment nfc_fragment names_fragment [0x78, 0xC3, 0xA9] = Inr [0x78, 0xE9]"
    by simp
  moreover from inst [where s = "[0x78, 0xCC, 0x81]" and u = "[0x78, 0x301]"
      and t = "ustr ''&#233;''" and ?t1.0 = "[233]"] 1 5
  have "\<exists>r. ulatex_postprocess names_fragment nfc_fragment (Unicode (ustr ''&#233;'')) = Inr r"
    by blast
  ultimately show ?thesis by blast
qed

text \<open>
  The claim as stated fails twice. The input of the specification's own example, U+0301
  behind a plain \<^verbatim>\<open>e\<close> (in UTF-8 the bytes 65 CC 81), holds a combining mark and is
  accepted: the normalisation that comes first composes the two to U+00E9. And another
  step raises: the reference \<^verbatim>\<open>&#1114112;\<close> names no code point, and \<^verbatim>\<open>unichr\<close> fails
  in \<open>ulatex_postprocess\<close>.
\<close>

theorem decode_raises_counterexample:
  "utf8_fragment [0x65, 0xCC, 0x81] = Inr [0x65, 0x301]
   \<and> is_combining names_fragment 0x301
   \<and> ulatex_preprocess utf8_fragment nfc_fragment names_fragment [0x65, 0xCC, 0x81] = Inr [0xE9]
   \<and> ulatex_postprocess names_fragment nfc_fragment (Unicode (ustr ''&#1114112;'')) = Inl ValueError"
  by (simp add: ulatex_preprocess_def continuation_def compositions_def names_fragment_simps
      ulatex_postprocess_def ustr_def unwrap_commands_def command_names_def command_match_def
      remove_braces_def str_replace_def debracket_match_def
      reorder_combining_def reorder_step_def drain_eq
      resolve_numcharrefs_def numcharref_match1_def numcharref_match2_def amp_hash_match_def
      digits_then_def is_digit_def numcharref_repl_def int_of_dec_def unichr_def)

text \<open>
  \<open>ulatex_decode\<close> on an input that passes the check is \<open>ulatex_postprocess\<close> of what the
  codec of the library makes of the normalised text; what is proved of
  \<open>ulatex_postprocess\<close> holds of the decoding of every text that the codec hands over.
\<close>

lemma ulatex_decode_postprocess:
  assumes "codec s = Inr u" and "no_marks name (nfc u)" and "ulatex (nfc u) = Inr t"
  shows "ulatex_decode codec nfc name ulatex s = ulatex_postprocess name nfc (Unicode t)"
proof -
  from assms(2) have "check_combining name (nfc u) = Inr ()" by (simp only: check_combining_iff)
  with assms(1) have "ulatex_preprocess codec nfc name s = Inr (nfc u)"
    by (simp add: ulatex_preprocess_def)
  with assms(3) show ?thesis by (simp add: ulatex_decode_def)
qed

section \<open>Properties of the table construction\<close>

lemma fold_register: "fold (register u) ls t l = (if l \<in> set ls then Some u else t l)"
  by (induction ls arbitrary: t) (auto simp: register_def)

lemma register_entries_slots:
  assumes "\<forall>e \<in> set es. lookup (fst e) \<noteq> None"
  shows "register_entries lookup es tables
           = Inr (map (\<lambda>t l. slot_after lookup es l (t l)) tables)"
  using assms
proof (induction es arbitrary: tables)
  case Nil
  then show ?case by (simp add: map_idI)
next
  case (Cons e es)
  obtain n sp where e: "e = (n, sp)" by (cases e)
  with Cons.prems obtain u where u: "lookup n = Some u" by auto
  have f: "fold (register u) (as_list sp)
      = (\<lambda>t l. if l \<in> set (as_list sp) then Some u else t l)"
    by (intro ext) (simp add: fold_register)
  have "register_entries lookup es (map (fold (register u) (as_list sp)) tables)
      = Inr (map (\<lambda>t l. slot_after lookup es l (t l))
               (map (fold (register u) (as_list sp)) tables))"
    using Cons.prems by (intro Cons.IH) simp
  then show ?case by (simp add: e u f comp_def cong: if_cong)
qed

lemma slot_after_last:
  assumes "l \<in> set (as_list sp1)" and "\<forall>e \<in> set ys. l \<notin> set (as_list (snd e))"
  shows "slot_after lookup (xs @ (n1, sp1) # ys) l d = lookup n1"
proof -
  have skip: "slot_after lookup ys l d' = d'" for d'
    using assms(2) by (induction ys arbitrary: d') auto
  show ?thesis using assms(1) by (induction xs arbitrary: d) (auto simp: skip)
qed

lemma sorted_reverse_names:
  "map fst (sorted_reverse fst tbl) = rev (sort (map fst tbl))"
proof -
  have "sort (map fst (rev tbl)) = map fst (sort_key fst (rev tbl))"
    by (rule properties_for_sort) (simp_all add: sorted_sort_key)
  moreover have "sort (map fst (rev tbl)) = sort (map fst tbl)"
    by (rule properties_for_sort) simp_all
  ultimately show ?thesis by (simp add: sorted_reverse_def rev_map)
qed

lemma set_sorted_reverse: "set (sorted_reverse key xs) = set xs"
  by (simp add: sorted_reverse_def)

text \<open>
  Claim C6. The entries are registered in reverse lexicographic order of their Unicode
  names. With a \<^verbatim>\<open>register\<close> that lets the later registration win, the slot of a LaTeX
  spelling that several entries list is left with the code point of the entry whose
  name comes first in lexicographic order.
\<close>

theorem earliest_name_wins:
  assumes "distinct (map fst LATEX_TABLE)"
    and "\<forall>e \<in> set LATEX_TABLE. lookup (fst e) \<noteq> None"
    and "(n1, sp1) \<in> set LATEX_TABLE" and "l \<in> set (as_list sp1)"
    and "\<forall>e \<in> set LATEX_TABLE. l \<in> set (as_list (snd e)) \<longrightarrow> n1 \<le> fst e"
  shows "map fst (sorted_reverse fst LATEX_TABLE) = rev (sort (map fst LATEX_TABLE))
         \<and> (\<exists>ts. build_tables lookup LATEX_TABLE tables = Inr ts
                \<and> length ts = length tables \<and> list_all (\<lambda>t. t l = lookup n1) ts)"
proof
  show names: "map fst (sorted_reverse fst LATEX_TABLE) = rev (sort (map fst LATEX_TABLE))"
    by (rule sorted_reverse_names)
  let ?es = "sorted_reverse fst LATEX_TABLE"
  have set_es: "set ?es = set LATEX_TABLE" by (rule set_sorted_reverse)
  with assms(3) have "(n1, sp1) \<in> set ?es" by simp
  then obtain xs ys where es: "?es = xs @ (n1, sp1) # ys"
    by (meson split_list)
  have dist: "distinct (map fst ?es)"
    using assms(1) by (simp add: names)
  have desc: "sorted (rev (map fst ?es))" by (simp add: names)
  have later: "l \<notin> set (as_list (snd e))" if "e \<in> set ys" for e
  proof
    assume "l \<in> set (as_list (snd e))"
    moreover from that es set_es have "e \<in> set LATEX_TABLE" by auto
    ultimately have "n1 \<le> fst e" using assms(5) by blast
    moreover from desc that have "fst e \<le> n1"
      by (auto simp: es sorted_append)
    moreover from dist that have "fst e \<noteq> n1" by (auto simp: es)
    ultimately show False by simp
  qed
  have "slot_after lookup ?es l d = lookup n1" for d
    unfolding es using assms(4) later by (intro slot_after_last) auto
  moreover have "build_tables lookup LATEX_TABLE tables
      = Inr (map (\<lambda>t l. slot_after lookup ?es l (t l)) tables)"
    unfolding build_tables_def using assms(2) set_es by (intro register_entries_slots) simp
  ultimately show "\<exists>ts. build_tables lookup LATEX_TABLE tables = Inr ts
      \<and> length ts = length tables \<and> list_all (\<lambda>t. t l = lookup n1) ts"
    by (simp add: list_all_iff)
qed

theorem earliest_name_wins_witness:
  "(case build_tables lookup_fragment
           [(''LATIN CAPITAL LETTER A'', Several [ [92, 120], [92, 121] ]),
            (''LATIN CAPITAL LETTER B'', Single [92, 120])] [Map.empty] of
      Inr [t] \<Rightarrow> t [92, 120]
    | _ \<Rightarrow> None) = Some 65"
proof -
  let ?tbl = "[(''LATIN CAPITAL LETTER A'', Several [ [92, 120], [92, 121] ]),
              (''LATIN CAPITAL LETTER B'', Single [92, 120 :: nat])]"
  have 1: "distinct (map fst ?tbl)" by simp
  have 2: "\<forall>e \<in> set ?tbl. lookup_fragment (fst e) \<noteq> None" by (simp add: lookup_fragment_def)
  have 3: "(''LATIN CAPITAL LETTER A'', Several [ [92, 120], [92, 121] ]) \<in> set ?tbl" by simp
  have 4: "[92, 120] \<in> set (as_list (Several [ [92, 120], [92, 121] ]))" by (simp add: as_list_def)
  have 5: "\<forall>e \<in> set ?tbl. [92, 120] \<in> set (as_list (snd e)) \<longrightarrow> ''LATIN CAPITAL LETTER A'' \<le> fst e"
    by simp
  from earliest_name_wins [OF 1 2 3 4 5, of "[Map.empty]"]
  obtain ts where "build_tables lookup_fragment ?tbl [Map.empty] = Inr ts" "length ts = 1"
    "list_all (\<lambda>t. t [92, 120] = lookup_fragment ''LATIN CAPITAL LETTER A'') ts" by auto
  then show ?thesis by (cases ts) (auto simp: lookup_fragment_def)
qed

end
